theory Spec2Isabelle
  imports Main "HOL-Library.Word"
begin

section \<open>IEEE-754 binary64 values, as JavaScript numbers\<close>

text \<open>
  Every JavaScript number is an IEEE-754 double: one sign bit, eleven exponent bits and
  fifty-two fraction bits. The three fields are kept apart, so every inhabitant of the type
  is a double and every double is an inhabitant.
\<close>

datatype f64 = F64 (sign: bool) (expo: "11 word") (frac: "52 word")

text \<open>
  A finite double is \<open>mant x * 2 ^ qexp x\<close> units of \<open>2 ^ -1074\<close> (the smallest
  subnormal): the significand is the fraction, with the hidden bit when the exponent field
  is not zero, and the exponent of the quantum is the exponent field less one (zero for
  the subnormals and the first normal binade alike).
\<close>

definition mant :: "f64 \<Rightarrow> nat" where
  "mant x = (if expo x = 0 then unat (frac x) else 2 ^ 52 + unat (frac x))"

definition qexp :: "f64 \<Rightarrow> nat" where
  "qexp x = unat (expo x) - 1"

text \<open>The value a double denotes, in units: its magnitude, and the signed value.\<close>

definition mag :: "f64 \<Rightarrow> nat" where
  "mag x = mant x * 2 ^ qexp x"

definition sval :: "f64 \<Rightarrow> int" where
  "sval x = (if sign x then - int (mag x) else int (mag x))"

definition is_nan :: "f64 \<Rightarrow> bool" where
  "is_nan x = (expo x = 2047 \<and> frac x \<noteq> 0)"

definition is_inf :: "f64 \<Rightarrow> bool" where
  "is_inf x = (expo x = 2047 \<and> frac x = 0)"

definition is_zero :: "f64 \<Rightarrow> bool" where
  "is_zero x = (expo x = 0 \<and> frac x = 0)"

definition NaN :: f64 where "NaN = F64 False 2047 (2 ^ 51)"
definition PINF :: f64 where "PINF = F64 False 2047 0"
definition NINF :: f64 where "NINF = F64 True 2047 0"
definition pzero :: f64 where "pzero = F64 False 0 0"
definition nzero :: f64 where "nzero = F64 True 0 0"

subsection \<open>Rounding to nearest, ties to even\<close>

fun bitlen :: "nat \<Rightarrow> nat" where
  "bitlen n = (if n = 0 then 0 else Suc (bitlen (n div 2)))"

declare bitlen.simps [simp del]

text \<open>\<open>ilog2q p q\<close> is the integer part of the binary logarithm of \<open>p / q\<close>, for positive
  \<open>p\<close> and \<open>q\<close>.\<close>

definition ilog2q :: "nat \<Rightarrow> nat \<Rightarrow> int" where
  "ilog2q p q =
     (let l = int (bitlen p) - int (bitlen q)
      in if q * 2 ^ nat l \<le> p * 2 ^ nat (- l) then l else l - 1)"

text \<open>\<open>rne n d\<close> is the integer nearest to \<open>n / d\<close>, the even one on a tie.\<close>

definition rne :: "nat \<Rightarrow> nat \<Rightarrow> nat" where
  "rne n d =
     (let m = n div d; r = n mod d
      in if 2 * r < d then m else if d < 2 * r then m + 1
         else if even m then m else m + 1)"

text \<open>
  \<open>encode s m sh\<close> is the double of sign \<open>s\<close> and magnitude \<open>m * 2 ^ sh\<close> units, for a
  significand \<open>m\<close> of at most 53 bits, or \<open>2 ^ 53\<close> itself after rounding up, which moves
  to the next binade. Below \<open>2 ^ 52\<close> the result is subnormal; an exponent beyond the
  largest gives the infinity of that sign.
\<close>

definition encode :: "bool \<Rightarrow> nat \<Rightarrow> nat \<Rightarrow> f64" where
  "encode s m sh =
     (if m < 2 ^ 52 then F64 s 0 (word_of_nat m)
      else
        let e = (if m = 2 ^ 53 then sh + 1 else sh);
            n = (if m = 2 ^ 53 then 2 ^ 52 else m)
        in if 2046 \<le> e then F64 s 2047 0
           else F64 s (word_of_nat (e + 1)) (word_of_nat (n - 2 ^ 52)))"

text \<open>
  \<open>round_q s p q x\<close> is the double of sign \<open>s\<close> nearest to \<open>(p / q) * 2 ^ x\<close> units, for
  \<open>q > 0\<close>. The quantum of the result is \<open>2 ^ sh\<close> units: one unit below \<open>2 ^ 53\<close> units
  (subnormals and the first normal binade), and such that the significand has 53 bits
  above. The exact quotient by the quantum is \<open>p * 2 ^ (x - sh) / q\<close>, written with
  natural numbers.
\<close>

definition round_q :: "bool \<Rightarrow> nat \<Rightarrow> nat \<Rightarrow> int \<Rightarrow> f64" where
  "round_q s p q x =
     (if p = 0 then F64 s 0 0
      else
        let sh = nat (ilog2q p q + x - 52);
            t = int sh - x
        in encode s (rne (p * 2 ^ nat (- t)) (q * 2 ^ nat t)) sh)"

subsection \<open>The arithmetic of ECMAScript numbers\<close>

definition fneg :: "f64 \<Rightarrow> f64" where
  "fneg x = F64 (\<not> sign x) (expo x) (frac x)"

definition fadd :: "f64 \<Rightarrow> f64 \<Rightarrow> f64" where
  "fadd a b =
     (if is_nan a \<or> is_nan b then NaN
      else if is_inf a then (if is_inf b \<and> sign a \<noteq> sign b then NaN else a)
      else if is_inf b then b
      else
        let q0 = min (qexp a) (qexp b);
            na = int (mant a * 2 ^ (qexp a - q0));
            nb = int (mant b * 2 ^ (qexp b - q0));
            n = (if sign a then - na else na) + (if sign b then - nb else nb)
        in if n = 0 then F64 (sign a \<and> sign b) 0 0
           else round_q (n < 0) (nat \<bar>n\<bar>) 1 (int q0))"

definition fsub :: "f64 \<Rightarrow> f64 \<Rightarrow> f64" where
  "fsub a b = fadd a (fneg b)"

definition fmul :: "f64 \<Rightarrow> f64 \<Rightarrow> f64" where
  "fmul a b =
     (if is_nan a \<or> is_nan b then NaN
      else if (is_inf a \<and> is_zero b) \<or> (is_zero a \<and> is_inf b) then NaN
      else if is_inf a \<or> is_inf b then F64 (sign a \<noteq> sign b) 2047 0
      else round_q (sign a \<noteq> sign b) (mant a * mant b) 1
             (int (qexp a) + int (qexp b) - 1074))"

definition fdiv :: "f64 \<Rightarrow> f64 \<Rightarrow> f64" where
  "fdiv a b =
     (if is_nan a \<or> is_nan b then NaN
      else if (is_inf a \<and> is_inf b) \<or> (is_zero a \<and> is_zero b) then NaN
      else if is_inf a \<or> is_zero b then F64 (sign a \<noteq> sign b) 2047 0
      else if is_inf b then F64 (sign a \<noteq> sign b) 0 0
      else round_q (sign a \<noteq> sign b) (mant a) (mant b)
             (int (qexp a) - int (qexp b) + 1074))"

text \<open>
  Strict equality \<open>===\<close> on numbers: false when either side is NaN, true across the two
  zeros, and otherwise true exactly for the same double.
\<close>

definition feq :: "f64 \<Rightarrow> f64 \<Rightarrow> bool" where
  "feq a b = (\<not> is_nan a \<and> \<not> is_nan b \<and> (a = b \<or> (is_zero a \<and> is_zero b)))"

text \<open>
  The order \<open><\<close>: false when either side is NaN; otherwise doubles are ordered as the
  sign-magnitude integers their bits spell, exponent field above fraction.
\<close>

definition key :: "f64 \<Rightarrow> nat" where
  "key x = unat (expo x) * 2 ^ 52 + unat (frac x)"

definition skey :: "f64 \<Rightarrow> int" where
  "skey x = (if sign x then - int (key x) else int (key x))"

definition flt :: "f64 \<Rightarrow> f64 \<Rightarrow> bool" where
  "flt a b = (\<not> is_nan a \<and> \<not> is_nan b \<and> skey a < skey b)"

text \<open>
  A number literal \<open>p / q\<close> denotes the double nearest to it; \<open>f64_of_nat n\<close> is the
  integer literal \<open>n\<close>, and the number a counter holds.
\<close>

definition lit :: "nat \<Rightarrow> nat \<Rightarrow> f64" where
  "lit p q = round_q False p q 1074"

definition f64_of_nat :: "nat \<Rightarrow> f64" where
  "f64_of_nat n = lit n 1"

text \<open>The literal \<open>5e-324\<close> of the edge-case table, the smallest positive double.\<close>

definition smallest :: f64 where
  "smallest = lit 5 (10 ^ 324)"

section \<open>The ULP metric of \<open>lib/compare.js\<close>\<close>

text \<open>
  The helpers \<open>lib/compare.js\<close> takes from the stdlib packages: \<open>is-nan\<close> is
  \<open>x !== x\<close>, \<open>is-infinite\<close> is \<open>x === PINF || x === NINF\<close>, \<open>abs\<close> is the
  magnitude with the sign bit cleared (so \<open>abs(-0)\<close> is \<open>+0\<close>), and the constant
  \<open>float64/eps\<close> is \<open>2 ^ -52\<close>.
\<close>

definition isnan :: "f64 \<Rightarrow> bool" where
  "isnan x = (\<not> feq x x)"

definition isinfinite :: "f64 \<Rightarrow> bool" where
  "isinfinite x = (feq x PINF \<or> feq x NINF)"

definition abs_f :: "f64 \<Rightarrow> f64" where
  "abs_f x = F64 False (expo x) (frac x)"

definition FLOAT64_EPS :: f64 where
  "FLOAT64_EPS = F64 False 971 0"

definition ulpDiff :: "f64 \<Rightarrow> f64 \<Rightarrow> f64" where
  "ulpDiff a b =
     (if feq a b then pzero
      else if isnan a \<or> isnan b then NaN
      else if isinfinite a \<or> isinfinite b then PINF
      else if feq a pzero then fdiv (abs_f b) (fdiv FLOAT64_EPS (f64_of_nat 2))
      else fdiv (abs_f (fsub a b)) (fmul (abs_f a) FLOAT64_EPS))"

text \<open>
  The policy of the specification, rule by rule, with its own constant: machine epsilon
  is the literal \<open>2.220446049250313e-16\<close>.
\<close>

definition machineEpsilon :: f64 where
  "machineEpsilon = lit 2220446049250313 (10 ^ 31)"

definition ulpDistance_spec :: "f64 \<Rightarrow> f64 \<Rightarrow> f64" where
  "ulpDistance_spec a b =
     (if feq a b then pzero
      else if is_nan a \<or> is_nan b then NaN
      else if is_inf a \<or> is_inf b then PINF
      else if is_zero a then fdiv (abs_f b) (fdiv machineEpsilon (lit 2 1))
      else fdiv (abs_f (fsub a b)) (fmul (abs_f a) machineEpsilon))"

section \<open>The ULP metric of \<open>web/app.js\<close>\<close>

text \<open>The browser file defines its helpers and constants itself.\<close>

definition FLOAT64_EPS_web :: f64 where
  "FLOAT64_EPS_web = lit 22204460492503131 (10 ^ 32)"

definition isnan_web :: "f64 \<Rightarrow> bool" where
  "isnan_web x = (\<not> feq x x)"

definition isinfinite_web :: "f64 \<Rightarrow> bool" where
  "isinfinite_web x = (feq x PINF \<or> feq x NINF)"

definition abs_web :: "f64 \<Rightarrow> f64" where
  "abs_web x = (if flt x pzero then fneg x else x)"

definition ulpDiff_web :: "f64 \<Rightarrow> f64 \<Rightarrow> f64" where
  "ulpDiff_web a b =
     (if feq a b then pzero
      else if isnan_web a \<or> isnan_web b then NaN
      else if isinfinite_web a \<or> isinfinite_web b then PINF
      else if feq a pzero then fdiv (abs_web b) (fdiv FLOAT64_EPS_web (f64_of_nat 2))
      else fdiv (abs_web (fsub a b)) (fmul (abs_web a) FLOAT64_EPS_web))"

section \<open>The sweep of \<open>runComparison\<close>\<close>

text \<open>
  The loop variables of \<open>runComparison\<close>. The two counters only ever grow by one per
  test point, and a typed array has fewer than \<open>2 ^ 53\<close> elements, so they are exact
  integers and are kept as naturals.
\<close>

record sweep =
  maxUlpDiff :: f64
  totalDiff :: f64
  worstCase :: f64
  nAgree :: nat
  nTotal :: nat

definition sweep_init :: sweep where
  "sweep_init = \<lparr>maxUlpDiff = pzero, totalDiff = pzero, worstCase = pzero,
                  nAgree = 0, nTotal = 0\<rparr>"

text \<open>One pass of the loop body, for the test point \<open>x\<close>; each \<open>continue\<close> is a branch
  that returns the state reached so far.\<close>

definition sweep_step ::
  "(f64 \<Rightarrow> f64) \<Rightarrow> (f64 \<Rightarrow> f64) \<Rightarrow> sweep \<Rightarrow> f64 \<Rightarrow> sweep" where
  "sweep_step stdlibFn nativeFn s x =
     (let stdlibVal = stdlibFn x; nativeVal = nativeFn x
      in if isnan stdlibVal \<and> isnan nativeVal then s
         else if isinfinite stdlibVal \<and> isinfinite nativeVal \<and> feq stdlibVal nativeVal
           then s
         else
           let s1 = s\<lparr>nTotal := nTotal s + 1\<rparr>
           in if feq stdlibVal nativeVal then s1\<lparr>nAgree := nAgree s1 + 1\<rparr>
              else
                let diff = ulpDiff stdlibVal nativeVal
                in if \<not> isnan diff \<and> \<not> isinfinite diff then
                     let s2 = s1\<lparr>totalDiff := fadd (totalDiff s1) diff\<rparr>
                     in if flt (maxUlpDiff s2) diff
                        then s2\<lparr>maxUlpDiff := diff, worstCase := x\<rparr>
                        else s2
                   else s1)"

definition sweep_loop ::
  "(f64 \<Rightarrow> f64) \<Rightarrow> (f64 \<Rightarrow> f64) \<Rightarrow> f64 list \<Rightarrow> sweep" where
  "sweep_loop stdlibFn nativeFn testPoints =
     foldl (sweep_step stdlibFn nativeFn) sweep_init testPoints"

text \<open>
  What \<open>runComparison\<close> prints after the loop, as the numbers handed to the formatting
  calls: the point count, the two counters, the percentage of exact agreement, and either
  the divergence block (maximum, average, worst input and both function values there) or
  the line of perfect agreement. \<open>toFixed\<close> prints a NaN as \<open>NaN\<close> and an infinity as
  \<open>Infinity\<close>, so a number shown is finite exactly when the number computed is.
\<close>

datatype verdict =
  Divergence (maxShown: f64) (avgShown: f64) (worstShown: f64) (stdlibAt: f64) (nativeAt: f64)
  | PerfectAgreement

record report =
  pointsTested :: nat
  exactAgreements :: nat
  totalComparable :: nat
  agreementPercent :: f64
  outcome :: verdict

definition runComparison ::
  "(f64 \<Rightarrow> f64) \<Rightarrow> (f64 \<Rightarrow> f64) \<Rightarrow> f64 list \<Rightarrow> report" where
  "runComparison stdlibFn nativeFn testPoints =
     (let s = sweep_loop stdlibFn nativeFn testPoints
      in \<lparr>pointsTested = length testPoints,
          exactAgreements = nAgree s,
          totalComparable = nTotal s,
          agreementPercent =
            fdiv (fmul (f64_of_nat 100) (f64_of_nat (nAgree s))) (f64_of_nat (nTotal s)),
          outcome =
            (if flt pzero (maxUlpDiff s)
             then Divergence (maxUlpDiff s)
                    (fdiv (totalDiff s)
                       (fsub (f64_of_nat (nTotal s)) (f64_of_nat (nAgree s))))
                    (worstCase s) (stdlibFn (worstCase s)) (nativeFn (worstCase s))
             else PerfectAgreement)\<rparr>)"

section \<open>The edge-case table of \<open>web/app.js\<close>\<close>

text \<open>The test \<open>populateEdgeCases\<close> applies to each result.\<close>

definition special :: "f64 \<Rightarrow> bool" where
  "special result = (isnan_web result \<or> isinfinite_web result \<or> feq result pzero)"

text \<open>
  One row of the table: the inner loop runs over the functions in order, collects the
  results for the cells, and raises the one flag of the row, reset only between rows.
\<close>

definition edge_row :: "(f64 \<Rightarrow> f64) list \<Rightarrow> f64 \<Rightarrow> f64 list \<times> bool" where
  "edge_row fns input =
     foldl (\<lambda>(cells, isSpecial) fn.
              let result = fn input
              in (cells @ [result], if special result then True else isSpecial))
       ([], False) fns"

definition PI :: f64 where
  "PI = lit 3141592653589793 (10 ^ 15)"

definition edge_inputs :: "f64 list" where
  "edge_inputs =
     [pzero, f64_of_nat 1, fneg (f64_of_nat 1), nzero, NaN, PINF, NINF,
      lit 1 (10 ^ 300), lit (10 ^ 300) 1, smallest, f64_of_nat 710,
      fneg (f64_of_nat 745), PI, fdiv PI (f64_of_nat 2)]"

text \<open>The table, for the four functions \<open>Math.exp\<close>, \<open>Math.log\<close>, \<open>Math.sqrt\<close> and
  \<open>Math.sin\<close> of the platform.\<close>

definition populateEdgeCases ::
  "(f64 \<Rightarrow> f64) \<Rightarrow> (f64 \<Rightarrow> f64) \<Rightarrow> (f64 \<Rightarrow> f64) \<Rightarrow> (f64 \<Rightarrow> f64)
     \<Rightarrow> (f64 list \<times> bool) list" where
  "populateEdgeCases m_exp m_log m_sqrt m_sin =
     map (edge_row [m_exp, m_log, m_sqrt, m_sin]) edge_inputs"

text \<open>
  The results ECMAScript fixes for these four functions; everywhere else the result is
  an implementation-approximated value, left to the platform \<open>g\<close>.
\<close>

definition es_exp :: "(f64 \<Rightarrow> f64) \<Rightarrow> f64 \<Rightarrow> f64" where
  "es_exp g x =
     (if is_nan x then NaN else if is_zero x then f64_of_nat 1
      else if x = PINF then PINF else if x = NINF then pzero else g x)"

definition es_log :: "(f64 \<Rightarrow> f64) \<Rightarrow> f64 \<Rightarrow> f64" where
  "es_log g x =
     (if is_nan x \<or> flt x pzero then NaN else if is_zero x then NINF
      else if x = f64_of_nat 1 then pzero else if x = PINF then PINF else g x)"

definition es_sqrt :: "(f64 \<Rightarrow> f64) \<Rightarrow> f64 \<Rightarrow> f64" where
  "es_sqrt g x =
     (if is_nan x \<or> flt x pzero then NaN else if is_zero x then x
      else if x = PINF then PINF else g x)"

definition es_sin :: "(f64 \<Rightarrow> f64) \<Rightarrow> f64 \<Rightarrow> f64" where
  "es_sin g x =
     (if is_nan x \<or> is_inf x then NaN else if is_zero x then x else g x)"

section \<open>Evaluating the arithmetic\<close>

lemma bitlen_0: "bitlen 0 = 0"
  by (simp add: bitlen.simps)

lemma bitlen_1: "bitlen 1 = 1"
  by (subst bitlen.simps) (simp add: bitlen_0)

lemma bitlen_Suc0: "bitlen (Suc 0) = 1"
  using bitlen_1 by simp

lemma bitlen_One: "bitlen (numeral Num.One) = 1"
  using bitlen_1 by simp

lemma bitlen_Bit0: "bitlen (numeral (Num.Bit0 k)) = bitlen (numeral k) + 1"
  by (subst bitlen.simps) simp

lemma bitlen_Bit1: "bitlen (numeral (Num.Bit1 k)) = bitlen (numeral k) + 1"
  by (subst bitlen.simps) simp

lemmas bitlen_num = bitlen_0 bitlen_1 bitlen_Suc0 bitlen_One bitlen_Bit0 bitlen_Bit1

lemmas f64_eval = bitlen_num round_q_def rne_def encode_def ilog2q_def Let_def lit_def f64_of_nat_def
  fadd_def fsub_def fmul_def fdiv_def fneg_def mant_def qexp_def is_nan_def is_inf_def
  is_zero_def NaN_def PINF_def NINF_def pzero_def nzero_def feq_def flt_def skey_def key_def
  isnan_def isinfinite_def abs_f_def FLOAT64_EPS_def

section \<open>Facts about the arithmetic\<close>

subsection \<open>Bit lengths, classes and the encoding\<close>

lemma bitlen_upper: "n < 2 ^ bitlen n"
proof (induction n rule: bitlen.induct)
  case (1 n)
  show ?case
  proof (cases "n = 0")
    case True
    then show ?thesis by (simp add: bitlen.simps)
  next
    case False
    with 1 have "n div 2 < 2 ^ bitlen (n div 2)" by simp
    then have "n < 2 * 2 ^ bitlen (n div 2)" by linarith
    with False show ?thesis by (subst bitlen.simps) simp
  qed
qed

lemma bitlen_lower: "0 < n \<Longrightarrow> 2 ^ (bitlen n - 1) \<le> n"
proof (induction n rule: bitlen.induct)
  case (1 n)
  show ?case
  proof (cases "n div 2 = 0")
    case True
    with 1(2) have "n = Suc 0" by linarith
    then show ?thesis by (simp add: bitlen_Suc0)
  next
    case False
    with 1 have ih: "2 ^ (bitlen (n div 2) - 1) \<le> n div 2" by simp
    from False have pos: "0 < bitlen (n div 2)" by (subst bitlen.simps) simp
    have "bitlen n = Suc (bitlen (n div 2))" using 1(2) by (subst bitlen.simps) simp
    then have "(2::nat) ^ (bitlen n - 1) = 2 * 2 ^ (bitlen (n div 2) - 1)"
      using pos by (cases "bitlen (n div 2)") simp_all
    with ih show ?thesis by linarith
  qed
qed

lemma bitlen_pos: "0 < n \<Longrightarrow> 0 < bitlen n"
  by (subst bitlen.simps) simp

lemma feq_refl_iff: "feq x x = (\<not> is_nan x)"
  by (simp add: feq_def)

lemma isnan_iff: "isnan x = is_nan x"
  by (simp add: isnan_def feq_def)

lemma is_zero_not_nan: "is_zero x \<Longrightarrow> \<not> is_nan x"
  by (simp add: is_zero_def is_nan_def)

lemma isinfinite_iff: "isinfinite x = is_inf x"
  by (cases x) (auto simp add: isinfinite_def feq_def is_inf_def is_nan_def is_zero_def PINF_def NINF_def)

lemma feq_pzero_iff: "feq a pzero = is_zero a"
  by (cases a) (auto simp add: feq_def is_zero_def is_nan_def pzero_def)

lemma sign_encode: "sign (encode s m sh) = s"
  by (simp add: encode_def Let_def)

lemma sign_round_q: "sign (round_q s p q x) = s"
  by (simp add: round_q_def Let_def sign_encode)

lemma unat_expo_word: "k < 2048 \<Longrightarrow> unat (word_of_nat k :: 11 word) = k"
  by (simp add: unat_of_nat)

lemma unat_frac_word: "k < 2 ^ 52 \<Longrightarrow> unat (word_of_nat k :: 52 word) = k"
  by (simp add: unat_of_nat)

lemma expo_small: 
  assumes "k < 2047" shows "(word_of_nat k :: 11 word) \<noteq> 2047"
proof
  assume "(word_of_nat k :: 11 word) = 2047"
  then have "unat (word_of_nat k :: 11 word) = unat (2047 :: 11 word)" by simp
  with assms show False by (simp add: unat_expo_word)
qed

lemma encode_cases:
  obtains (sub) "m < 2 ^ 52" "encode s m sh = F64 s 0 (word_of_nat m)"
  | (inf) "2 ^ 52 \<le> m" "encode s m sh = F64 s 2047 0"
  | (norm) e f where "2 ^ 52 \<le> m" "e < 2046" "encode s m sh = F64 s (word_of_nat (e + 1)) f"
proof (cases "m < 2 ^ 52")
  case True
  then have "encode s m sh = F64 s 0 (word_of_nat m)" by (simp add: encode_def)
  with True show ?thesis by (rule sub)
next
  case False
  define e where "e = (if m = 2 ^ 53 then sh + 1 else sh)"
  define n where "n = (if m = 2 ^ 53 then 2 ^ 52 else m)"
  have enc: "encode s m sh =
      (if 2046 \<le> e then F64 s 2047 0 else F64 s (word_of_nat (e + 1)) (word_of_nat (n - 2 ^ 52)))"
    using False unfolding encode_def e_def n_def Let_def by (simp only: if_False)
  show ?thesis
  proof (cases "2046 \<le> e")
    case True
    with enc have "encode s m sh = F64 s 2047 0" by (simp only: if_True)
    with False show ?thesis by (intro inf) simp_all
  next
    case nb: False
    with enc have "encode s m sh = F64 s (word_of_nat (e + 1)) (word_of_nat (n - 2 ^ 52))"
      by (simp only: if_False)
    with False nb show ?thesis by (intro norm[of e]) simp_all
  qed
qed

lemma encode_not_nan: "\<not> is_nan (encode s m sh)"
proof (cases rule: encode_cases[of m s sh])
  case sub
  then show ?thesis by (simp add: is_nan_def)
next
  case inf
  then show ?thesis by (simp add: is_nan_def)
next
  case (norm e f)
  from norm(2) have "(word_of_nat (e + 1) :: 11 word) \<noteq> 2047" by (intro expo_small) simp
  with norm(3) show ?thesis by (simp only: is_nan_def f64.sel) simp
qed

lemma round_q_not_nan: "\<not> is_nan (round_q s p q x)"
  by (simp add: round_q_def Let_def encode_not_nan) (simp add: is_nan_def)

lemma frac_word_zero: 
  assumes "k < 2 ^ 52" "(word_of_nat k :: 52 word) = 0" shows "k = 0"
proof -
  from assms(2) have "unat (word_of_nat k :: 52 word) = 0" by simp
  with assms(1) show ?thesis by (simp add: unat_frac_word)
qed

lemma expo_word_zero: 
  assumes "k < 2048" "(word_of_nat k :: 11 word) = 0" shows "k = 0"
proof -
  from assms(2) have "unat (word_of_nat k :: 11 word) = 0" by simp
  with assms(1) show ?thesis by (simp add: unat_expo_word)
qed

lemma encode_zero: 
  assumes "is_zero (encode s m sh)" shows "m = 0"
proof (cases rule: encode_cases[of m s sh])
  case sub
  with assms have "(word_of_nat m :: 52 word) = 0" by (simp add: is_zero_def)
  with sub(1) show ?thesis by (rule frac_word_zero)
next
  case inf
  with assms show ?thesis by (simp add: is_zero_def)
next
  case (norm e f)
  with assms have "(word_of_nat (e + 1) :: 11 word) = 0" by (simp only: is_zero_def f64.sel)
  with norm(2) have "e + 1 = 0" by (intro expo_word_zero) simp_all
  then show ?thesis by simp
qed

subsection \<open>A difference of unequal finite numbers is not zero\<close>

lemma rne_ge_div: "n div d \<le> rne n d"
  by (simp add: rne_def Let_def)

lemma rne_pos: "0 < d \<Longrightarrow> d \<le> n \<Longrightarrow> 0 < rne n d"
proof -
  assume "0 < d" "d \<le> n"
  then have "0 < n div d" by (simp add: div_greater_zero_iff)
  with rne_ge_div[of n d] show ?thesis by linarith
qed

lemma ilog2q_le: "ilog2q p q \<le> int (bitlen p) - int (bitlen q)"
  by (simp add: ilog2q_def Let_def)

lemma round_int_not_zero:
  assumes "0 < p" "0 \<le> x"
  shows "\<not> is_zero (round_q s p 1 x)"
proof
  assume z: "is_zero (round_q s p 1 x)"
  define sh where "sh = nat (ilog2q p 1 + x - 52)"
  define t where "t = int sh - x"
  from assms(1) have rq: "round_q s p 1 x = encode s (rne (p * 2 ^ nat (- t)) (1 * 2 ^ nat t)) sh"
    by (simp add: round_q_def Let_def sh_def t_def)
  have "(2::nat) ^ nat t \<le> p * 2 ^ nat (- t)"
  proof (cases "t \<le> 0")
    case True
    with assms(1) show ?thesis by simp
  next
    case False
    then have "0 < sh" using assms(2) by (simp add: t_def)
    then have "int sh = ilog2q p 1 + x - 52" by (simp add: sh_def)
    then have "t = ilog2q p 1 - 52" by (simp add: t_def)
    with ilog2q_le[of p 1] have "t \<le> int (bitlen p) - 1" by (simp add: bitlen_1)
    then have "nat t \<le> bitlen p - 1" by linarith
    then have "(2::nat) ^ nat t \<le> 2 ^ (bitlen p - 1)" by (simp add: power_increasing)
    also have "\<dots> \<le> p" using assms(1) by (rule bitlen_lower)
    finally show ?thesis using False by simp
  qed
  then have "0 < rne (p * 2 ^ nat (- t)) (1 * 2 ^ nat t)" by (intro rne_pos) simp_all
  moreover from z rq have "rne (p * 2 ^ nat (- t)) (1 * 2 ^ nat t) = 0"
    by (simp only: encode_zero)
  ultimately show False by simp
qed

lemma mant_less: "mant x < 2 ^ 53"
proof -
  have "unat (frac x) < 2 ^ 52" using unsigned_less[of "frac x"] by simp
  then show ?thesis by (simp add: mant_def)
qed

lemma mant_ge: "expo x \<noteq> 0 \<Longrightarrow> 2 ^ 52 \<le> mant x"
  by (simp add: mant_def)

lemma mant_sub: "expo x = 0 \<Longrightarrow> mant x < 2 ^ 52"
  using unsigned_less[of "frac x"] by (simp add: mant_def)

lemma qexp_pos_expo: "0 < qexp x \<Longrightarrow> expo x \<noteq> 0"
  by (auto simp add: qexp_def)

lemma scaled_eq_le:
  assumes le: "qexp a \<le> qexp b"
    and eq: "mant a = mant b * 2 ^ (qexp b - qexp a)"
  shows "expo a = expo b \<and> frac a = frac b"
proof -
  have qe: "qexp a = qexp b"
  proof (rule ccontr)
    assume "qexp a \<noteq> qexp b"
    with le have lt: "qexp a < qexp b" by simp
    then have "0 < qexp b" by simp
    then have "2 ^ 52 \<le> mant b" by (intro mant_ge qexp_pos_expo)
    moreover from lt have "(2::nat) ^ 1 \<le> 2 ^ (qexp b - qexp a)"
      by (intro power_increasing) simp_all
    ultimately have "2 ^ 52 * 2 ^ 1 \<le> mant b * 2 ^ (qexp b - qexp a)"
      by (rule mult_le_mono)
    with eq mant_less[of a] show False by simp
  qed
  with eq have me: "mant a = mant b" by simp
  show ?thesis
  proof (cases "expo a = 0")
    case True
    then have "mant a < 2 ^ 52" by (rule mant_sub)
    with me have "expo b = 0" using mant_ge[of b] by fastforce
    with True me show ?thesis by (simp add: mant_def word_unat_eq_iff)
  next
    case False
    then have "2 ^ 52 \<le> mant a" by (rule mant_ge)
    with me have nb: "expo b \<noteq> 0" using mant_sub[of b] by fastforce
    from False have "unat (expo a) \<noteq> 0" by (simp add: unat_0_iff)
    moreover from nb have "unat (expo b) \<noteq> 0" by (simp add: unat_0_iff)
    ultimately have "unat (expo a) = unat (expo b)" using qe by (simp add: qexp_def)
    then have "expo a = expo b" by (simp add: word_unat_eq_iff)
    with False nb me show ?thesis by (simp add: mant_def word_unat_eq_iff)
  qed
qed

lemma scaled_eq:
  assumes "mant a * 2 ^ (qexp a - min (qexp a) (qexp b)) =
           mant b * 2 ^ (qexp b - min (qexp a) (qexp b))"
  shows "expo a = expo b \<and> frac a = frac b"
proof (cases "qexp a \<le> qexp b")
  case True
  with assms have "mant a = mant b * 2 ^ (qexp b - qexp a)" by (simp add: min_def)
  with True show ?thesis by (rule scaled_eq_le)
next
  case False
  then have le: "qexp b \<le> qexp a" by simp
  with assms False have "mant b = mant a * 2 ^ (qexp a - qexp b)" by (simp add: min_def)
  with le have "expo b = expo a \<and> frac b = frac a" by (rule scaled_eq_le)
  then show ?thesis by simp
qed

lemma mant_zero_iff: "mant x = 0 \<longleftrightarrow> is_zero x"
  by (auto simp add: mant_def is_zero_def unat_0_iff)

lemma fadd_finite:
  assumes "\<not> is_nan a" "\<not> is_nan b" "\<not> is_inf a" "\<not> is_inf b"
  shows "fadd a b =
     (let q0 = min (qexp a) (qexp b);
          na = int (mant a * 2 ^ (qexp a - q0));
          nb = int (mant b * 2 ^ (qexp b - q0));
          n = (if sign a then - na else na) + (if sign b then - nb else nb)
      in if n = 0 then F64 (sign a \<and> sign b) 0 0
         else round_q (n < 0) (nat \<bar>n\<bar>) 1 (int q0))"
  using assms by (simp add: fadd_def)

lemma fadd_finite_not_nan:
  assumes "\<not> is_nan a" "\<not> is_nan b" "\<not> is_inf a" "\<not> is_inf b"
  shows "\<not> is_nan (fadd a b)"
  using assms by (simp add: fadd_finite Let_def round_q_not_nan) (simp add: is_nan_def)

lemma fadd_zero_fields:
  assumes fin: "\<not> is_nan a" "\<not> is_nan b" "\<not> is_inf a" "\<not> is_inf b"
    and z: "is_zero (fadd a b)"
  shows "expo a = expo b \<and> frac a = frac b \<and> (sign a \<noteq> sign b \<or> is_zero a)"
proof -
  define q0 where "q0 = min (qexp a) (qexp b)"
  define na where "na = mant a * 2 ^ (qexp a - q0)"
  define nb where "nb = mant b * 2 ^ (qexp b - q0)"
  define n where "n = (if sign a then - int na else int na) + (if sign b then - int nb else int nb)"
  have fa: "fadd a b = (if n = 0 then F64 (sign a \<and> sign b) 0 0
                        else round_q (n < 0) (nat \<bar>n\<bar>) 1 (int q0))"
    using fin by (simp add: fadd_finite Let_def n_def na_def nb_def q0_def)
  have n0: "n = 0"
  proof (rule ccontr)
    assume "n \<noteq> 0"
    then have "0 < nat \<bar>n\<bar>" by simp
    then have "\<not> is_zero (round_q (n < 0) (nat \<bar>n\<bar>) 1 (int q0))"
      by (rule round_int_not_zero) simp
    with fa \<open>n \<noteq> 0\<close> z show False by simp
  qed
  then have eq: "na = nb" and sg: "sign a \<noteq> sign b \<or> na = 0"
    by (auto simp add: n_def split: if_splits)
  from eq have fields: "expo a = expo b \<and> frac a = frac b"
    unfolding na_def nb_def q0_def by (rule scaled_eq)
  from sg have "sign a \<noteq> sign b \<or> is_zero a"
    by (auto simp add: na_def mant_zero_iff)
  with fields show ?thesis by simp
qed

lemma fneg_sel [simp]: "sign (fneg x) = (\<not> sign x)" "expo (fneg x) = expo x"
  "frac (fneg x) = frac x"
  by (simp_all add: fneg_def)

lemma fneg_class [simp]: "is_nan (fneg x) = is_nan x" "is_inf (fneg x) = is_inf x"
  "is_zero (fneg x) = is_zero x"
  by (simp_all add: is_nan_def is_inf_def is_zero_def)

lemma fsub_not_nan:
  assumes "\<not> is_nan a" "\<not> is_nan b" "\<not> is_inf a" "\<not> is_inf b"
  shows "\<not> is_nan (fsub a b)"
  unfolding fsub_def using assms by (intro fadd_finite_not_nan) simp_all

lemma fsub_not_zero:
  assumes fin: "\<not> is_nan a" "\<not> is_nan b" "\<not> is_inf a" "\<not> is_inf b"
    and ne: "\<not> feq a b"
  shows "\<not> is_zero (fsub a b)"
proof
  assume "is_zero (fsub a b)"
  then have "is_zero (fadd a (fneg b))" by (simp add: fsub_def)
  with fin have "expo a = expo (fneg b) \<and> frac a = frac (fneg b) \<and>
      (sign a \<noteq> sign (fneg b) \<or> is_zero a)"
    by (intro fadd_zero_fields) simp_all
  then have f: "expo a = expo b" "frac a = frac b" and s: "sign a = sign b \<or> is_zero a"
    by simp_all
  from f have zz: "is_zero a \<Longrightarrow> is_zero b" by (simp add: is_zero_def)
  from f s have "a = b \<or> (is_zero a \<and> is_zero b)"
    using zz by (cases a; cases b) auto
  with fin ne show False by (simp add: feq_def)
qed

lemma skey_neg_iff: "skey x < 0 \<longleftrightarrow> sign x \<and> \<not> is_zero x"
proof -
  define k where "k = int (unat (expo x)) * 2 ^ 52 + int (unat (frac x))"
  have z: "k = 0 \<longleftrightarrow> is_zero x"
    unfolding k_def by (auto simp add: is_zero_def uint_0_iff add_nonneg_eq_0_iff)
  have nn: "0 \<le> k" unfolding k_def by simp
  have "skey x = (if sign x then - k else k)" by (simp add: skey_def key_def k_def)
  with z nn show ?thesis by (cases "k = 0") auto
qed

lemma flt_pzero_iff: "flt x pzero \<longleftrightarrow> \<not> is_nan x \<and> sign x \<and> \<not> is_zero x"
proof -
  have "skey pzero = 0" by (simp add: skey_def key_def pzero_def)
  moreover have "\<not> is_nan pzero" by (simp add: is_nan_def pzero_def)
  ultimately show ?thesis by (simp add: flt_def skey_neg_iff)
qed

lemma abs_web_eq:
  assumes "\<not> is_nan x" "\<not> is_zero x"
  shows "abs_web x = abs_f x"
  using assms by (cases x) (simp add: abs_web_def abs_f_def flt_pzero_iff fneg_def)

subsection \<open>Constants\<close>

lemma zero_bits: "f64_of_nat 0 = pzero"
  by (simp add: f64_of_nat_def lit_def round_q_def pzero_def)

lemma one_bits: "f64_of_nat 1 = F64 False 1023 0"
  by (simp add: f64_eval)

lemma two_bits: "f64_of_nat 2 = F64 False 1024 0"
  by (simp add: f64_eval)

lemma hundred_bits: "f64_of_nat 100 = F64 False 1029 2533274790395904"
  by (simp add: f64_eval)

lemma machineEpsilon_bits: "machineEpsilon = FLOAT64_EPS"
  by (simp add: machineEpsilon_def f64_eval)

lemma FLOAT64_EPS_web_bits: "FLOAT64_EPS_web = FLOAT64_EPS"
  by (simp add: FLOAT64_EPS_web_def f64_eval)

lemma half_eps_bits: "fdiv FLOAT64_EPS (F64 False 1024 0) = F64 False 970 0"
  by (simp add: f64_eval)

lemma isnan_web_iff: "isnan_web x = is_nan x"
  by (simp add: isnan_web_def feq_def)

lemma isinfinite_web_iff: "isinfinite_web x = is_inf x"
  using isinfinite_iff[of x] by (simp add: isinfinite_web_def isinfinite_def)

lemma feq_zero_zero: "\<not> is_nan a \<Longrightarrow> \<not> is_nan b \<Longrightarrow> is_zero a \<Longrightarrow> is_zero b \<Longrightarrow> feq a b"
  by (simp add: feq_def)

subsection \<open>The metric at one and two\<close>

lemma ulpDiff_one_two: "ulpDiff (F64 False 1023 0) (F64 False 1024 0) = F64 False 1075 0"
  by (simp add: ulpDiff_def f64_eval)

lemma ulpDiff_two_one: "ulpDiff (F64 False 1024 0) (F64 False 1023 0) = F64 False 1074 0"
  by (simp add: ulpDiff_def f64_eval)

lemma ulpDiff_zero_one: "ulpDiff pzero (F64 False 1023 0) = F64 False 1076 0"
  by (simp add: ulpDiff_def f64_eval)

subsection \<open>Signs of quotients and products\<close>

lemma NaN_is_nan: "is_nan NaN"
  by (simp add: NaN_def is_nan_def)

lemma fdiv_sign: "is_nan (fdiv a b) \<or> sign (fdiv a b) = (sign a \<noteq> sign b)"
  by (simp add: fdiv_def sign_round_q NaN_is_nan)

lemma fmul_sign: "is_nan (fmul a b) \<or> sign (fmul a b) = (sign a \<noteq> sign b)"
  by (simp add: fmul_def sign_round_q NaN_is_nan)

lemma fdiv_nan_right: "is_nan b \<Longrightarrow> is_nan (fdiv a b)"
  by (simp add: fdiv_def NaN_is_nan)

lemma fdiv_abs_sign:
  assumes "is_nan d \<or> \<not> sign d"
  shows "is_nan (fdiv (abs_f n) d) \<or> \<not> sign (fdiv (abs_f n) d)"
  using assms fdiv_sign[of "abs_f n" d] fdiv_nan_right[of d "abs_f n"]
  by (auto simp add: abs_f_def)

lemma ulpDiff_sign: "is_nan (ulpDiff a b) \<or> \<not> sign (ulpDiff a b)"
proof -
  have e: "\<not> sign FLOAT64_EPS" by (simp add: FLOAT64_EPS_def)
  have h: "is_nan (fdiv FLOAT64_EPS (f64_of_nat 2)) \<or> \<not> sign (fdiv FLOAT64_EPS (f64_of_nat 2))"
    by (simp add: two_bits half_eps_bits)
  have m: "is_nan (fmul (abs_f a) FLOAT64_EPS) \<or> \<not> sign (fmul (abs_f a) FLOAT64_EPS)"
    using fmul_sign[of "abs_f a" FLOAT64_EPS] e by (auto simp add: abs_f_def)
  note r4 = fdiv_abs_sign[OF h, of b]
  note r5 = fdiv_abs_sign[OF m, of "fsub a b"]
  have z: "\<not> sign pzero" "\<not> sign PINF" by (simp_all add: pzero_def PINF_def)
  show ?thesis
    unfolding ulpDiff_def using r4 r5 z NaN_is_nan by (simp only: split: if_split) blast
qed

section \<open>The model against the values it denotes\<close>

text \<open>
  A finite double other than zero is the rounding of its own value; strict equality is
  equality of values and the order is the order of values; \<open>rne\<close> is within half
  a unit of the quotient it rounds; and the arithmetic gives the doubles that IEEE-754
  gives on some well-known sums and quotients.
\<close>

lemma bitlen_eq:
  assumes "2 ^ (j - 1) \<le> n" "n < 2 ^ j" "0 < n"
  shows "bitlen n = j"
proof (rule ccontr)
  assume ne: "bitlen n \<noteq> j"
  show False
  proof (cases "bitlen n < j")
    case True
    then have "bitlen n \<le> j - 1" by simp
    then have "(2::nat) ^ bitlen n \<le> 2 ^ (j - 1)" by (rule power_increasing) simp
    with bitlen_upper[of n] assms(1) show False by linarith
  next
    case False
    with ne have "j \<le> bitlen n - 1" by simp
    then have "(2::nat) ^ j \<le> 2 ^ (bitlen n - 1)" by (rule power_increasing) simp
    with bitlen_lower[OF assms(3)] assms(2) show False by linarith
  qed
qed

lemma bitlen_le:
  assumes "n < 2 ^ j" shows "bitlen n \<le> j"
proof (cases "n = 0")
  case True
  then show ?thesis by (simp add: bitlen_0)
next
  case False
  then have "2 ^ (bitlen n - 1) \<le> n" by (intro bitlen_lower) simp
  with assms have "(2::nat) ^ (bitlen n - 1) < 2 ^ j" by linarith
  then have "bitlen n - 1 < j" by (simp add: power_strict_increasing_iff)
  then show ?thesis by linarith
qed

lemma ilog2q_at:
  assumes "l = int (bitlen p) - int (bitlen q)" "q * 2 ^ nat l \<le> p * 2 ^ nat (- l)"
  shows "ilog2q p q = l"
  using assms by (simp add: ilog2q_def Let_def)

lemma ilog2q_int:
  assumes "0 < p" shows "ilog2q p (Suc 0) = int (bitlen p) - 1"
proof (rule ilog2q_at)
  show "int (bitlen p) - 1 = int (bitlen p) - int (bitlen (Suc 0))"
    by (simp add: bitlen_Suc0)
  have pos: "0 < bitlen p" using assms by (rule bitlen_pos)
  then have n: "nat (int (bitlen p) - 1) = bitlen p - 1" "nat (- (int (bitlen p) - 1)) = 0"
    by linarith+
  have "2 ^ (bitlen p - 1) \<le> p" using assms by (rule bitlen_lower)
  then show "Suc 0 * 2 ^ nat (int (bitlen p) - 1) \<le> p * 2 ^ nat (- (int (bitlen p) - 1))"
    by (simp only: n) simp
qed

lemma rne_one: "rne n (Suc 0) = n"
  by (simp add: rne_def)

lemma round_q_at:
  assumes "0 < p" "sh = nat (ilog2q p q + x - 52)" "t = int sh - x"
  shows "round_q s p q x = encode s (rne (p * 2 ^ nat (- t)) (q * 2 ^ nat t)) sh"
  using assms by (simp add: round_q_def Let_def)

lemma round_q_exact:
  assumes fin: "expo x \<noteq> 2047" and nz: "\<not> is_zero x"
  shows "round_q s (mant x) (Suc 0) (int (qexp x)) = F64 s (expo x) (frac x)"
proof -
  have fl: "unat (frac x) < 2 ^ 52" using unsigned_less[of "frac x"] by simp
  show ?thesis
  proof (cases "expo x = 0")
    case True
    with nz have fpos: "0 < unat (frac x)" by (simp add: is_zero_def unat_gt_0)
    from True have m: "mant x = unat (frac x)" and k: "qexp x = 0"
      by (simp_all add: mant_def qexp_def)
    from fl have "bitlen (unat (frac x)) \<le> 52" by (rule bitlen_le)
    then have sh: "0 = nat (ilog2q (unat (frac x)) (Suc 0) + 0 - 52)"
      using fpos by (simp add: ilog2q_int)
    have "round_q s (unat (frac x)) (Suc 0) 0 =
        encode s (rne (unat (frac x) * 2 ^ nat (- 0)) (Suc 0 * 2 ^ nat 0)) 0"
      using fpos sh by (rule round_q_at) simp
    also have "\<dots> = encode s (unat (frac x)) 0" by (simp add: rne_one)
    also have "\<dots> = F64 s 0 (frac x)" using fl by (simp add: encode_def)
    finally show ?thesis using True m k by simp
  next
    case False
    then have epos: "0 < unat (expo x)" by (simp add: unat_gt_0)
    have "unat (expo x) < 2048" using unsigned_less[of "expo x"] by simp
    moreover have "unat (expo x) \<noteq> 2047"
    proof
      assume "unat (expo x) = 2047"
      then have "unat (expo x) = unat (2047 :: 11 word)" by simp
      then have "expo x = 2047" by (simp only: word_unat_eq_iff)
      with fin show False by simp
    qed
    ultimately have eub: "unat (expo x) \<le> 2046" by linarith
    define M where "M = 2 ^ 52 + unat (frac x)"
    define k where "k = unat (expo x) - 1"
    from False have m: "mant x = M" by (simp add: mant_def M_def)
    have kq: "qexp x = k" by (simp add: qexp_def k_def)
    have Mlo: "2 ^ 52 \<le> M" and Mhi: "M < 2 ^ 53" using fl by (simp_all add: M_def)
    then have bl: "bitlen M = 53" by (intro bitlen_eq) simp_all
    from Mlo have Mpos: "0 < M" by simp
    have sh: "k = nat (ilog2q M (Suc 0) + int k - 52)" using Mpos by (simp add: ilog2q_int bl)
    have "round_q s M (Suc 0) (int k) =
        encode s (rne (M * 2 ^ nat (- 0)) (Suc 0 * 2 ^ nat 0)) k"
      using Mpos sh by (rule round_q_at) simp
    also have "\<dots> = encode s M k" by (simp add: rne_one)
    also have "\<dots> = F64 s (word_of_nat (k + 1)) (word_of_nat (M - 2 ^ 52))"
    proof -
      have "\<not> 2046 \<le> k" using eub epos unfolding k_def by linarith
      moreover have "\<not> M < 2 ^ 52" "M \<noteq> 2 ^ 53" using Mlo Mhi by simp_all
      ultimately show ?thesis by (simp add: encode_def Let_def)
    qed
    also have "k + 1 = unat (expo x)" using epos by (simp add: k_def)
    also have "M - 2 ^ 52 = unat (frac x)" by (simp add: M_def)
    finally show ?thesis using m kq by simp
  qed
qed

lemma mag_inj:
  assumes "mag a = mag b"
  shows "expo a = expo b \<and> frac a = frac b"
proof -
  define q0 where "q0 = min (qexp a) (qexp b)"
  have a: "mant a * 2 ^ qexp a = (mant a * 2 ^ (qexp a - q0)) * 2 ^ q0"
    by (simp add: q0_def power_add[symmetric])
  have b: "mant b * 2 ^ qexp b = (mant b * 2 ^ (qexp b - q0)) * 2 ^ q0"
    by (simp add: q0_def power_add[symmetric])
  from assms a b have "(mant a * 2 ^ (qexp a - q0)) * 2 ^ q0 = (mant b * 2 ^ (qexp b - q0)) * 2 ^ q0"
    by (simp add: mag_def)
  then have "mant a * 2 ^ (qexp a - q0) = mant b * 2 ^ (qexp b - q0)" by simp
  then show ?thesis unfolding q0_def by (rule scaled_eq)
qed

lemma mag_zero_iff: "mag x = 0 \<longleftrightarrow> is_zero x"
  by (simp add: mag_def mant_zero_iff)

lemma feq_iff_sval:
  assumes "\<not> is_nan a" "\<not> is_nan b"
  shows "feq a b \<longleftrightarrow> sval a = sval b"
proof
  assume "feq a b"
  then have "a = b \<or> (is_zero a \<and> is_zero b)" by (simp add: feq_def)
  then show "sval a = sval b" by (auto simp add: sval_def mag_zero_iff[symmetric])
next
  assume eq: "sval a = sval b"
  then have m: "mag a = mag b" by (auto simp add: sval_def split: if_splits)
  then have f: "expo a = expo b" "frac a = frac b" using mag_inj by blast+
  show "feq a b"
  proof (cases "mag a = 0")
    case True
    with m have "is_zero a" "is_zero b" by (simp_all add: mag_zero_iff[symmetric])
    with assms show ?thesis by (simp add: feq_def)
  next
    case False
    with eq m have "sign a = sign b" by (auto simp add: sval_def split: if_splits)
    with f have "a = b" by (cases a; cases b) simp
    with assms show ?thesis by (simp add: feq_def)
  qed
qed

lemma unat_frac_less: "unat (frac x) < 2 ^ 52"
  using unsigned_less[of "frac x"] by simp

lemma mag_subnormal: "expo x = 0 \<Longrightarrow> mag x = unat (frac x)"
  by (simp add: mag_def mant_def qexp_def)

lemma mag_normal:
  "expo x \<noteq> 0 \<Longrightarrow> mag x = (2 ^ 52 + unat (frac x)) * 2 ^ (unat (expo x) - 1)"
  by (simp add: mag_def mant_def qexp_def)

lemma mag_normal_bounds:
  assumes "expo x \<noteq> 0"
  shows "2 ^ 52 * 2 ^ (unat (expo x) - 1) \<le> mag x" "mag x < 2 ^ 52 * 2 ^ unat (expo x)"
proof -
  from assms have pos: "0 < unat (expo x)" by (simp add: unat_gt_0)
  show "2 ^ 52 * 2 ^ (unat (expo x) - 1) \<le> mag x"
    using assms by (simp add: mag_normal)
  have "(2 ^ 52 + unat (frac x)) * 2 ^ (unat (expo x) - 1) < (2 ^ 52 + 2 ^ 52) * 2 ^ (unat (expo x) - 1)"
    using unat_frac_less[of x] by simp
  also have "\<dots> = 2 ^ 52 * (2 * 2 ^ (unat (expo x) - 1))" by simp
  also have "2 * (2::nat) ^ (unat (expo x) - 1) = 2 ^ unat (expo x)"
    using pos by (cases "unat (expo x)") simp_all
  finally show "mag x < 2 ^ 52 * 2 ^ unat (expo x)" using assms by (simp add: mag_normal)
qed

lemma mag_mono_expo:
  assumes "unat (expo a) < unat (expo b)"
  shows "mag a < mag b"
proof -
  from assms have nb: "expo b \<noteq> 0" by (auto simp add: unat_gt_0)
  have lb: "2 ^ 52 * 2 ^ (unat (expo b) - 1) \<le> mag b" using nb by (rule mag_normal_bounds)
  show ?thesis
  proof (cases "expo a = 0")
    case True
    then have "mag a < 2 ^ 52" using unat_frac_less[of a] by (simp add: mag_subnormal)
    also have "(2::nat) ^ 52 \<le> 2 ^ 52 * 2 ^ (unat (expo b) - 1)" by simp
    finally show ?thesis using lb by linarith
  next
    case False
    then have "mag a < 2 ^ 52 * 2 ^ unat (expo a)" by (rule mag_normal_bounds)
    moreover from assms have "(2::nat) ^ unat (expo a) \<le> 2 ^ (unat (expo b) - 1)"
      by (intro power_increasing) simp_all
    then have "(2::nat) ^ 52 * 2 ^ unat (expo a) \<le> 2 ^ 52 * 2 ^ (unat (expo b) - 1)"
      by simp
    ultimately show ?thesis using lb by linarith
  qed
qed

lemma mag_mono_frac:
  assumes "expo a = expo b" "unat (frac a) < unat (frac b)"
  shows "mag a < mag b"
  using assms by (cases "expo b = 0") (simp_all add: mag_subnormal mag_normal)

lemma key_less_cases:
  assumes "key a < key b"
  shows "unat (expo a) < unat (expo b) \<or> (expo a = expo b \<and> unat (frac a) < unat (frac b))"
proof (cases "unat (expo a) < unat (expo b)")
  case True
  then show ?thesis by simp
next
  case False
  have "unat (expo a) = unat (expo b)"
  proof (rule ccontr)
    assume "unat (expo a) \<noteq> unat (expo b)"
    with False have "unat (expo b) + 1 \<le> unat (expo a)" by simp
    then have "(unat (expo b) + 1) * 2 ^ 52 \<le> unat (expo a) * 2 ^ 52" by (rule mult_le_mono1)
    with assms unat_frac_less[of b] show False by (simp add: key_def)
  qed
  then have "expo a = expo b" by (simp add: word_unat_eq_iff)
  with assms show ?thesis by (simp add: key_def)
qed

lemma mag_mono: "key a < key b \<Longrightarrow> mag a < mag b"
  using key_less_cases[of a b] mag_mono_expo[of a b] mag_mono_frac[of a b] by blast

lemma key_eq_fields: 
  assumes "key a = key b" shows "expo a = expo b \<and> frac a = frac b"
proof -
  have "\<not> key a < key b" "\<not> key b < key a" using assms by simp_all
  have e: "unat (expo a) = unat (expo b)"
  proof (rule ccontr)
    assume ne: "unat (expo a) \<noteq> unat (expo b)"
    show False
    proof (cases "unat (expo a) < unat (expo b)")
      case True
      then have "unat (expo a) + 1 \<le> unat (expo b)" by simp
      then have "(unat (expo a) + 1) * 2 ^ 52 \<le> unat (expo b) * 2 ^ 52" by (rule mult_le_mono1)
      with assms unat_frac_less[of a] show False by (simp add: key_def)
    next
      case False
      with ne have "unat (expo b) + 1 \<le> unat (expo a)" by simp
      then have "(unat (expo b) + 1) * 2 ^ 52 \<le> unat (expo a) * 2 ^ 52" by (rule mult_le_mono1)
      with assms unat_frac_less[of b] show False by (simp add: key_def)
    qed
  qed
  with assms have "unat (frac a) = unat (frac b)" by (simp add: key_def)
  with e show ?thesis by (simp add: word_unat_eq_iff)
qed

lemma key_mag_less_iff: "key a < key b \<longleftrightarrow> mag a < mag b"
proof
  assume "key a < key b"
  then show "mag a < mag b" by (rule mag_mono)
next
  assume lt: "mag a < mag b"
  show "key a < key b"
  proof (rule ccontr)
    assume "\<not> key a < key b"
    then consider "key b < key a" | "key a = key b" by linarith
    then show False
    proof cases
      case 1
      then have "mag b < mag a" by (rule mag_mono)
      with lt show False by simp
    next
      case 2
      then have "expo a = expo b \<and> frac a = frac b" by (rule key_eq_fields)
      then have "mag a = mag b" by (simp add: mag_def mant_def qexp_def)
      with lt show False by simp
    qed
  qed
qed

lemma key_mag_eq_iff: "key a = key b \<longleftrightarrow> mag a = mag b"
  using key_mag_less_iff[of a b] key_mag_less_iff[of b a] by (metis mag_inj key_eq_fields key_def nat_neq_iff)

lemma key_zero_iff: "key x = 0 \<longleftrightarrow> is_zero x"
  by (auto simp add: key_def is_zero_def unat_0_iff)

lemma flt_iff_sval:
  assumes "\<not> is_nan a" "\<not> is_nan b"
  shows "flt a b \<longleftrightarrow> sval a < sval b"
proof -
  have l: "key a < key b \<longleftrightarrow> mag a < mag b"
    and g: "key b < key a \<longleftrightarrow> mag b < mag a"
    and e: "key a = key b \<longleftrightarrow> mag a = mag b"
    by (rule key_mag_less_iff key_mag_eq_iff)+
  have za: "key a = 0 \<longleftrightarrow> mag a = 0" and zb: "key b = 0 \<longleftrightarrow> mag b = 0"
    by (simp_all add: key_zero_iff mag_zero_iff)
  have "skey a < skey b \<longleftrightarrow> sval a < sval b"
    using l g e za zb by (cases "sign a"; cases "sign b") (auto simp add: skey_def sval_def)
  with assms show ?thesis by (simp add: flt_def)
qed

lemma rne_nearest:
  assumes "0 < d"
  shows "2 * \<bar>int (rne n d) * int d - int n\<bar> \<le> int d"
proof -
  define m where "m = n div d"
  define r where "r = n mod d"
  have n: "int n = int m * int d + int r"
    unfolding m_def r_def by (metis div_mult_mod_eq of_nat_add of_nat_mult)
  have rd: "r < d" unfolding r_def using assms by simp
  have cases: "rne n d = m \<and> 2 * r \<le> d \<or> rne n d = m + 1 \<and> d \<le> 2 * r"
    by (auto simp add: rne_def Let_def m_def r_def)
  then show ?thesis
  proof
    assume a: "rne n d = m \<and> 2 * r \<le> d"
    then have "int (rne n d) * int d - int n = - int r" using n by simp
    with a show ?thesis by simp
  next
    assume a: "rne n d = m + 1 \<and> d \<le> 2 * r"
    then have "int (rne n d) * int d - int n = int d - int r"
      using n by (simp add: algebra_simps)
    with a rd show ?thesis by simp
  qed
qed

lemma rne_tie_even:
  assumes "0 < d" "2 * (n mod d) = d"
  shows "even (rne n d)"
  using assms by (simp add: rne_def Let_def)

lemma round_q_exact_one:
  assumes "expo x \<noteq> 2047" "\<not> is_zero x"
  shows "round_q (sign x) (mant x) 1 (int (qexp x)) = x"
  using round_q_exact[OF assms, of "sign x"] by (cases x) simp

lemma tenth_bits: "lit 1 10 = F64 False 1019 2702159776422298"
  by (simp add: f64_eval)

lemma fifth_bits: "lit 2 10 = F64 False 1020 2702159776422298"
  by (simp add: f64_eval)

lemma tenth_plus_fifth:
  "fadd (F64 False 1019 2702159776422298) (F64 False 1020 2702159776422298) =
     F64 False 1021 900719925474100"
  by (simp add: f64_eval)

lemma three_tenths_bits: "lit 3 10 = F64 False 1021 900719925474099"
  by (simp add: f64_eval)

lemma third_bits: "fdiv (F64 False 1023 0) (F64 False 1024 2251799813685248) =
    F64 False 1021 1501199875790165"
  by (simp add: f64_eval)

lemma largest_plus_half_ulp:
  "fadd (F64 False 2046 4503599627370495) (F64 False 1993 0) = PINF"
  by (simp add: f64_eval)

lemma subnormal_halves:
  "fdiv (F64 False 0 1) (F64 False 1024 0) = pzero"
  "fdiv (F64 False 0 3) (F64 False 1024 0) = F64 False 0 2"
  by (simp_all add: f64_eval)

subsection \<open>Adding and subtracting zero\<close>

lemma bitlen_shift:
  assumes "0 < n" shows "bitlen (n * 2 ^ k) = bitlen n + k"
proof (rule bitlen_eq)
  have lo: "2 ^ (bitlen n - 1) \<le> n" using assms by (rule bitlen_lower)
  have pos: "0 < bitlen n" using assms by (rule bitlen_pos)
  have "(2::nat) ^ (bitlen n + k - 1) = 2 ^ (bitlen n - 1) * 2 ^ k"
    using pos by (simp add: power_add[symmetric])
  also have "\<dots> \<le> n * 2 ^ k" using lo by simp
  finally show "2 ^ (bitlen n + k - 1) \<le> n * 2 ^ k" .
  have "n * 2 ^ k < 2 ^ bitlen n * 2 ^ k" using bitlen_upper[of n] by simp
  then show "n * 2 ^ k < 2 ^ (bitlen n + k)" by (simp add: power_add)
  show "0 < n * 2 ^ k" using assms by simp
qed

lemma rne_multiple: "0 < d \<Longrightarrow> rne (m * d) d = m"
  by (simp add: rne_def)

lemma round_q_scaled_exact:
  assumes fin: "expo x \<noteq> 2047" and nz: "\<not> is_zero x"
  shows "round_q s (mant x * 2 ^ qexp x) (Suc 0) 0 = F64 s (expo x) (frac x)"
proof (cases "expo x = 0")
  case True
  then have "qexp x = 0" by (simp add: qexp_def)
  with round_q_exact[OF fin nz, of s] show ?thesis by simp
next
  case False
  then have epos: "0 < unat (expo x)" by (simp add: unat_gt_0)
  define M where "M = mant x"
  define k where "k = qexp x"
  have Mlo: "2 ^ 52 \<le> M" unfolding M_def using False by (rule mant_ge)
  have Mhi: "M < 2 ^ 53" unfolding M_def by (rule mant_less)
  from Mlo have Mpos: "0 < M" by simp
  have bl: "bitlen M = 53" using Mlo Mhi by (intro bitlen_eq) simp_all
  have pos: "0 < M * 2 ^ k" using Mpos by simp
  have blk: "bitlen (M * 2 ^ k) = 53 + k" using Mpos bl by (simp add: bitlen_shift)
  have sh: "k = nat (ilog2q (M * 2 ^ k) (Suc 0) + 0 - 52)"
    using pos by (simp add: ilog2q_int blk)
  have "round_q s (M * 2 ^ k) (Suc 0) 0 =
      encode s (rne (M * 2 ^ k * 2 ^ nat (- int k)) (Suc 0 * 2 ^ nat (int k))) k"
    using pos sh by (rule round_q_at) simp
  also have "rne (M * 2 ^ k * 2 ^ nat (- int k)) (Suc 0 * 2 ^ nat (int k)) = M"
    by (simp add: rne_multiple)
  also have "encode s M k = round_q s M (Suc 0) (int k)"
  proof -
    have sh': "k = nat (ilog2q M (Suc 0) + int k - 52)" using Mpos by (simp add: ilog2q_int bl)
    have "round_q s M (Suc 0) (int k) = encode s (rne (M * 2 ^ nat (- 0)) (Suc 0 * 2 ^ nat 0)) k"
      using Mpos sh' by (rule round_q_at) simp
    then show ?thesis by (simp add: rne_one)
  qed
  also have "\<dots> = F64 s (expo x) (frac x)"
    unfolding M_def k_def using fin nz by (rule round_q_exact)
  finally show ?thesis by (simp add: M_def k_def)
qed

lemma qexp_zero: "is_zero z \<Longrightarrow> qexp z = 0"
  by (simp add: qexp_def is_zero_def)

lemma mant_zero: "is_zero z \<Longrightarrow> mant z = 0"
  by (simp add: mant_zero_iff)

lemma finite_expo: "\<not> is_nan a \<Longrightarrow> \<not> is_inf a \<Longrightarrow> expo a \<noteq> 2047"
  by (auto simp add: is_nan_def is_inf_def)

lemma is_zero_class: "is_zero z \<Longrightarrow> \<not> is_nan z \<and> \<not> is_inf z"
  by (simp add: is_zero_def is_nan_def is_inf_def)

lemma fadd_zero_right:
  assumes "\<not> is_nan a" "\<not> is_inf a" "\<not> is_zero a" "is_zero z"
  shows "fadd a z = a"
proof -
  have mp: "0 < mant a" using assms(3) by (simp add: mant_zero_iff[symmetric])
  from assms have "fadd a z =
     (let q0 = min (qexp a) (qexp z);
          na = int (mant a * 2 ^ (qexp a - q0));
          nb = int (mant z * 2 ^ (qexp z - q0));
          n = (if sign a then - na else na) + (if sign z then - nb else nb)
      in if n = 0 then F64 (sign a \<and> sign z) 0 0
         else round_q (n < 0) (nat \<bar>n\<bar>) 1 (int q0))"
    using is_zero_class[of z] by (intro fadd_finite) simp_all
  also have "\<dots> = round_q (sign a) (mant a * 2 ^ qexp a) (Suc 0) 0"
  proof -
    have e: "int (mant a) * 2 ^ qexp a = int (mant a * 2 ^ qexp a)" by simp
    have p: "0 < int (mant a * 2 ^ qexp a)" using mp by simp
    show ?thesis
      using mp assms(4) p unfolding Let_def qexp_zero[OF assms(4)] mant_zero[OF assms(4)]
      by (simp add: e del: of_nat_mult of_nat_power)
  qed
  also have "\<dots> = F64 (sign a) (expo a) (frac a)"
    using assms by (intro round_q_scaled_exact finite_expo)
  finally show ?thesis by simp
qed

lemma fadd_zero_left:
  assumes "\<not> is_nan a" "\<not> is_inf a" "\<not> is_zero a" "is_zero z"
  shows "fadd z a = a"
proof -
  have mp: "0 < mant a" using assms(3) by (simp add: mant_zero_iff[symmetric])
  from assms have "fadd z a =
     (let q0 = min (qexp z) (qexp a);
          na = int (mant z * 2 ^ (qexp z - q0));
          nb = int (mant a * 2 ^ (qexp a - q0));
          n = (if sign z then - na else na) + (if sign a then - nb else nb)
      in if n = 0 then F64 (sign z \<and> sign a) 0 0
         else round_q (n < 0) (nat \<bar>n\<bar>) 1 (int q0))"
    using is_zero_class[of z] by (intro fadd_finite) simp_all
  also have "\<dots> = round_q (sign a) (mant a * 2 ^ qexp a) (Suc 0) 0"
  proof -
    have e: "int (mant a) * 2 ^ qexp a = int (mant a * 2 ^ qexp a)" by simp
    have p: "0 < int (mant a * 2 ^ qexp a)" using mp by simp
    show ?thesis
      using mp assms(4) p unfolding Let_def qexp_zero[OF assms(4)] mant_zero[OF assms(4)]
      by (simp add: e del: of_nat_mult of_nat_power)
  qed
  also have "\<dots> = F64 (sign a) (expo a) (frac a)"
    using assms by (intro round_q_scaled_exact finite_expo)
  finally show ?thesis by simp
qed

lemma fsub_zero_right:
  assumes "\<not> is_nan a" "\<not> is_inf a" "\<not> is_zero a" "is_zero z"
  shows "fsub a z = a"
  unfolding fsub_def using assms by (intro fadd_zero_right) simp_all

section \<open>Facts about the sweep\<close>

subsection \<open>The branches of the loop body\<close>

lemma step_both_nan:
  "is_nan (c x) \<Longrightarrow> is_nan (r x) \<Longrightarrow> sweep_step c r s x = s"
  by (simp add: sweep_step_def isnan_iff)

lemma step_same_inf:
  "is_inf (c x) \<Longrightarrow> is_inf (r x) \<Longrightarrow> feq (c x) (r x) \<Longrightarrow> sweep_step c r s x = s"
  by (simp add: sweep_step_def isnan_iff isinfinite_iff Let_def)

lemma feq_not_nan: "feq a b \<Longrightarrow> \<not> is_nan a \<and> \<not> is_nan b"
  by (simp add: feq_def)

lemma step_agree:
  assumes "feq (c x) (r x)" "\<not> (is_inf (c x) \<and> is_inf (r x))"
  shows "sweep_step c r s x = s\<lparr>nTotal := nTotal s + 1, nAgree := nAgree s + 1\<rparr>"
  using assms feq_not_nan[of "c x" "r x"]
  by (simp add: sweep_step_def isnan_iff isinfinite_iff Let_def)

lemma step_uncounted:
  assumes "\<not> feq (c x) (r x)" "\<not> (is_nan (c x) \<and> is_nan (r x))"
    and "is_nan (ulpDiff (c x) (r x)) \<or> is_inf (ulpDiff (c x) (r x))"
  shows "sweep_step c r s x = s\<lparr>nTotal := nTotal s + 1\<rparr>"
  using assms by (auto simp add: sweep_step_def isnan_iff isinfinite_iff Let_def)

lemma step_counted:
  assumes "\<not> feq (c x) (r x)" "\<not> (is_nan (c x) \<and> is_nan (r x))"
    and "\<not> is_nan (ulpDiff (c x) (r x))" "\<not> is_inf (ulpDiff (c x) (r x))"
  shows "sweep_step c r s x =
     (if flt (maxUlpDiff s) (ulpDiff (c x) (r x))
      then s\<lparr>nTotal := nTotal s + 1, totalDiff := fadd (totalDiff s) (ulpDiff (c x) (r x)),
             maxUlpDiff := ulpDiff (c x) (r x), worstCase := x\<rparr>
      else s\<lparr>nTotal := nTotal s + 1, totalDiff := fadd (totalDiff s) (ulpDiff (c x) (r x))\<rparr>)"
  using assms by (auto simp add: sweep_step_def isnan_iff isinfinite_iff Let_def)

lemma step_cases:
  obtains (skip) "sweep_step c r s x = s"
  | (agree) "sweep_step c r s x = s\<lparr>nTotal := nTotal s + 1, nAgree := nAgree s + 1\<rparr>"
  | (uncounted) "sweep_step c r s x = s\<lparr>nTotal := nTotal s + 1\<rparr>"
  | (sum) d where "\<not> is_nan d" "\<not> is_inf d" "\<not> sign d"
      "sweep_step c r s x = s\<lparr>nTotal := nTotal s + 1, totalDiff := fadd (totalDiff s) d\<rparr>"
  | (peak) d where "\<not> is_nan d" "\<not> is_inf d" "\<not> sign d" "flt (maxUlpDiff s) d"
      "sweep_step c r s x = s\<lparr>nTotal := nTotal s + 1, totalDiff := fadd (totalDiff s) d,
         maxUlpDiff := d, worstCase := x\<rparr>"
proof (cases "is_nan (c x) \<and> is_nan (r x)")
  case True
  then have "sweep_step c r s x = s" by (simp add: step_both_nan)
  then show ?thesis by (rule skip)
next
  case nn: False
  show ?thesis
  proof (cases "feq (c x) (r x)")
    case True
    show ?thesis
    proof (cases "is_inf (c x) \<and> is_inf (r x)")
      case True
      with \<open>feq (c x) (r x)\<close> have "sweep_step c r s x = s" by (simp add: step_same_inf)
      then show ?thesis by (rule skip)
    next
      case False
      with True show ?thesis by (intro agree step_agree)
    qed
  next
    case ne: False
    define d where "d = ulpDiff (c x) (r x)"
    show ?thesis
    proof (cases "is_nan d \<or> is_inf d")
      case True
      with ne nn show ?thesis unfolding d_def by (intro uncounted step_uncounted)
    next
      case False
      then have fin: "\<not> is_nan d" "\<not> is_inf d" by simp_all
      with ulpDiff_sign[of "c x" "r x"] have sg: "\<not> sign d" by (simp add: d_def)
      have st: "sweep_step c r s x =
         (if flt (maxUlpDiff s) d
          then s\<lparr>nTotal := nTotal s + 1, totalDiff := fadd (totalDiff s) d,
                 maxUlpDiff := d, worstCase := x\<rparr>
          else s\<lparr>nTotal := nTotal s + 1, totalDiff := fadd (totalDiff s) d\<rparr>)"
        unfolding d_def using ne nn fin[unfolded d_def] by (rule step_counted)
      show ?thesis
      proof (cases "flt (maxUlpDiff s) d")
        case True
        with st fin sg show ?thesis by (intro peak[of d]) simp_all
      next
        case False
        with st fin sg show ?thesis by (intro sum[of d]) simp_all
      qed
    qed
  qed
qed

subsection \<open>What every sweep keeps\<close>

lemma flt_pzero_left: "flt pzero d \<longleftrightarrow> \<not> is_nan d \<and> \<not> sign d \<and> \<not> is_zero d"
proof -
  define k where "k = int (unat (expo d)) * 2 ^ 52 + int (unat (frac d))"
  have z: "k = 0 \<longleftrightarrow> is_zero d"
    unfolding k_def by (auto simp add: is_zero_def uint_0_iff add_nonneg_eq_0_iff)
  have nn: "0 \<le> k" unfolding k_def by simp
  have sk: "skey d = (if sign d then - k else k)" by (simp add: skey_def key_def k_def)
  have "skey pzero = 0" by (simp add: skey_def key_def pzero_def)
  moreover have "\<not> is_nan pzero" by (simp add: is_nan_def pzero_def)
  ultimately have "flt pzero d \<longleftrightarrow> \<not> is_nan d \<and> 0 < skey d" by (simp add: flt_def)
  with sk z nn show ?thesis by (cases "k = 0") auto
qed

lemma step_keeps:
  assumes "nAgree s \<le> nTotal s" "\<not> is_nan (maxUlpDiff s)" "\<not> is_inf (maxUlpDiff s)"
    "\<not> sign (maxUlpDiff s)" "flt pzero (maxUlpDiff s) \<longrightarrow> nAgree s < nTotal s"
  shows "nAgree (sweep_step c r s x) \<le> nTotal (sweep_step c r s x) \<and>
    \<not> is_nan (maxUlpDiff (sweep_step c r s x)) \<and> \<not> is_inf (maxUlpDiff (sweep_step c r s x)) \<and>
    \<not> sign (maxUlpDiff (sweep_step c r s x)) \<and>
    (flt pzero (maxUlpDiff (sweep_step c r s x)) \<longrightarrow>
       nAgree (sweep_step c r s x) < nTotal (sweep_step c r s x))"
  using assms by (cases rule: step_cases[of c r s x]) auto

lemma loop_keeps:
  assumes "nAgree s \<le> nTotal s" "\<not> is_nan (maxUlpDiff s)" "\<not> is_inf (maxUlpDiff s)"
    "\<not> sign (maxUlpDiff s)" "flt pzero (maxUlpDiff s) \<longrightarrow> nAgree s < nTotal s"
  shows "nAgree (foldl (sweep_step c r) s xs) \<le> nTotal (foldl (sweep_step c r) s xs) \<and>
    \<not> is_nan (maxUlpDiff (foldl (sweep_step c r) s xs)) \<and>
    \<not> is_inf (maxUlpDiff (foldl (sweep_step c r) s xs)) \<and>
    \<not> sign (maxUlpDiff (foldl (sweep_step c r) s xs)) \<and>
    (flt pzero (maxUlpDiff (foldl (sweep_step c r) s xs)) \<longrightarrow>
       nAgree (foldl (sweep_step c r) s xs) < nTotal (foldl (sweep_step c r) s xs))"
  using assms
proof (induction xs arbitrary: s)
  case Nil
  then show ?case by simp
next
  case (Cons x xs)
  have "nAgree (sweep_step c r s x) \<le> nTotal (sweep_step c r s x) \<and>
    \<not> is_nan (maxUlpDiff (sweep_step c r s x)) \<and> \<not> is_inf (maxUlpDiff (sweep_step c r s x)) \<and>
    \<not> sign (maxUlpDiff (sweep_step c r s x)) \<and>
    (flt pzero (maxUlpDiff (sweep_step c r s x)) \<longrightarrow>
       nAgree (sweep_step c r s x) < nTotal (sweep_step c r s x))"
    using Cons.prems by (rule step_keeps)
  then show ?case using Cons.IH[of "sweep_step c r s x"] by simp
qed

lemma sweep_init_sel [simp]:
  "maxUlpDiff sweep_init = pzero" "totalDiff sweep_init = pzero" "worstCase sweep_init = pzero"
  "nAgree sweep_init = 0" "nTotal sweep_init = 0"
  by (simp_all add: sweep_init_def)

lemma pzero_class [simp]: "\<not> is_nan pzero" "\<not> is_inf pzero" "\<not> sign pzero" "is_zero pzero"
  by (simp_all add: pzero_def is_nan_def is_inf_def is_zero_def)

lemma sweep_loop_keeps:
  "nAgree (sweep_loop c r xs) \<le> nTotal (sweep_loop c r xs) \<and>
    \<not> is_nan (maxUlpDiff (sweep_loop c r xs)) \<and>
    \<not> is_inf (maxUlpDiff (sweep_loop c r xs)) \<and>
    \<not> sign (maxUlpDiff (sweep_loop c r xs)) \<and>
    (flt pzero (maxUlpDiff (sweep_loop c r xs)) \<longrightarrow>
       nAgree (sweep_loop c r xs) < nTotal (sweep_loop c r xs))"
  unfolding sweep_loop_def by (rule loop_keeps) (simp_all add: flt_pzero_left)

subsection \<open>A function against itself\<close>

lemma self_step:
  "sweep_step f f s x =
     (if is_nan (f x) \<or> is_inf (f x) then s
      else s\<lparr>nTotal := nTotal s + 1, nAgree := nAgree s + 1\<rparr>)"
proof (cases "is_nan (f x)")
  case True
  then show ?thesis by (simp add: step_both_nan)
next
  case False
  then have eq: "feq (f x) (f x)" by (simp add: feq_def)
  show ?thesis
  proof (cases "is_inf (f x)")
    case True
    with eq show ?thesis by (simp add: step_same_inf)
  next
    case False
    with eq \<open>\<not> is_nan (f x)\<close> show ?thesis by (simp add: step_agree)
  qed
qed

lemma self_loop:
  "foldl (sweep_step f f) s xs =
     s\<lparr>nTotal := nTotal s + length (filter (\<lambda>x. \<not> is_nan (f x) \<and> \<not> is_inf (f x)) xs),
       nAgree := nAgree s + length (filter (\<lambda>x. \<not> is_nan (f x) \<and> \<not> is_inf (f x)) xs)\<rparr>"
proof (induction xs arbitrary: s)
  case Nil
  then show ?case by simp
next
  case (Cons x xs)
  show ?case
  proof (cases "is_nan (f x) \<or> is_inf (f x)")
    case True
    then have "sweep_step f f s x = s" by (simp only: self_step if_True)
    then have "foldl (sweep_step f f) s (x # xs) = foldl (sweep_step f f) s xs" by simp
    with True Cons.IH[of s] show ?thesis by auto
  next
    case False
    then have "sweep_step f f s x = s\<lparr>nTotal := nTotal s + 1, nAgree := nAgree s + 1\<rparr>"
      by (simp only: self_step if_False)
    then have "foldl (sweep_step f f) s (x # xs) =
        foldl (sweep_step f f) (s\<lparr>nTotal := nTotal s + 1, nAgree := nAgree s + 1\<rparr>) xs"
      by simp
    with False Cons.IH[of "s\<lparr>nTotal := nTotal s + 1, nAgree := nAgree s + 1\<rparr>"]
    show ?thesis by simp
  qed
qed

lemma self_sweep:
  "sweep_loop f f xs =
     sweep_init\<lparr>nTotal := length (filter (\<lambda>x. \<not> is_nan (f x) \<and> \<not> is_inf (f x)) xs),
       nAgree := length (filter (\<lambda>x. \<not> is_nan (f x) \<and> \<not> is_inf (f x)) xs)\<rparr>"
  by (simp add: sweep_loop_def self_loop)

lemma flt_irrefl: "\<not> flt x x"
  by (simp add: flt_def)

lemma self_report:
  "exactAgreements (runComparison f f xs) = length (filter (\<lambda>x. \<not> is_nan (f x) \<and> \<not> is_inf (f x)) xs)
   \<and> totalComparable (runComparison f f xs) = length (filter (\<lambda>x. \<not> is_nan (f x) \<and> \<not> is_inf (f x)) xs)
   \<and> pointsTested (runComparison f f xs) = length xs
   \<and> maxUlpDiff (sweep_loop f f xs) = pzero
   \<and> outcome (runComparison f f xs) = PerfectAgreement"
  by (simp add: runComparison_def self_sweep Let_def flt_irrefl)

subsection \<open>Skipped test points\<close>

lemma loop_append:
  "foldl (sweep_step c r) s (xs @ ys) = foldl (sweep_step c r) (foldl (sweep_step c r) s xs) ys"
  by simp

lemma loop_skip:
  assumes "sweep_step c r (foldl (sweep_step c r) sweep_init xs) x = foldl (sweep_step c r) sweep_init xs"
  shows "sweep_loop c r (xs @ x # ys) = sweep_loop c r (xs @ ys)"
  using assms by (simp add: sweep_loop_def)

subsection \<open>Infinite results\<close>

lemma inf_same_sign_feq:
  assumes "is_inf a" "is_inf b" "sign a = sign b" shows "feq a b"
  using assms by (cases a; cases b) (simp add: feq_def is_inf_def is_nan_def)

lemma inf_other_sign_not_feq:
  assumes "is_inf a" "is_inf b" "sign a \<noteq> sign b" shows "\<not> feq a b"
  using assms by (cases a; cases b) (auto simp add: feq_def is_inf_def is_zero_def)

lemma inf_finite_not_feq:
  assumes "is_inf a" "\<not> is_inf b" shows "\<not> feq a b" "\<not> feq b a"
  using assms by (auto simp add: feq_def is_inf_def is_zero_def)

lemma is_inf_not_nan: "is_inf a \<Longrightarrow> \<not> is_nan a"
  by (simp add: is_inf_def is_nan_def)

lemma ulpDiff_inf:
  assumes "\<not> feq a b" "\<not> is_nan a" "\<not> is_nan b" "is_inf a \<or> is_inf b"
  shows "ulpDiff a b = PINF"
  using assms by (auto simp add: ulpDiff_def isnan_iff isinfinite_iff)

lemma PINF_class [simp]: "is_inf PINF" "\<not> is_nan PINF" "\<not> sign PINF" "\<not> is_zero PINF"
  by (simp_all add: PINF_def is_inf_def is_nan_def is_zero_def)

lemma step_inf_mismatch:
  assumes "\<not> feq (c x) (r x)" "\<not> is_nan (c x)" "\<not> is_nan (r x)" "is_inf (c x) \<or> is_inf (r x)"
  shows "sweep_step c r s x = s\<lparr>nTotal := nTotal s + 1\<rparr>"
proof -
  from assms have "ulpDiff (c x) (r x) = PINF" by (rule ulpDiff_inf)
  then have "is_nan (ulpDiff (c x) (r x)) \<or> is_inf (ulpDiff (c x) (r x))" by simp
  with assms(1,2) show ?thesis by (intro step_uncounted) simp_all
qed

subsection \<open>A denominator that underflows\<close>

lemma smallest_bits: "smallest = F64 False 0 1"
  by (simp add: smallest_def f64_eval)

lemma tiny_times_eps: "fmul (abs_f (F64 False 0 1)) FLOAT64_EPS = pzero"
  by (simp add: f64_eval)

lemma fdiv_by_zero:
  assumes "\<not> is_nan a" "\<not> is_zero a" "\<not> sign a"
  shows "fdiv a pzero = PINF"
  using assms by (simp add: fdiv_def PINF_def)

lemma abs_f_class [simp]: "is_nan (abs_f x) = is_nan x" "is_inf (abs_f x) = is_inf x"
  "is_zero (abs_f x) = is_zero x" "\<not> sign (abs_f x)"
  by (simp_all add: abs_f_def is_nan_def is_inf_def is_zero_def)

lemma ulpDiff_tiny:
  assumes "\<not> is_nan b" "\<not> feq (F64 False 0 1) b"
  shows "ulpDiff (F64 False 0 1) b = PINF"
proof (cases "is_inf b")
  case True
  with assms show ?thesis by (intro ulpDiff_inf) (simp_all add: is_nan_def)
next
  case False
  have a: "\<not> is_nan (F64 False 0 1)" "\<not> is_inf (F64 False 0 1)" "\<not> is_zero (F64 False 0 1)"
    by (simp_all add: is_nan_def is_inf_def is_zero_def)
  from a assms False have "\<not> is_nan (fsub (F64 False 0 1) b)" by (intro fsub_not_nan)
  moreover from a assms False have "\<not> is_zero (fsub (F64 False 0 1) b)" by (intro fsub_not_zero)
  ultimately have "fdiv (abs_f (fsub (F64 False 0 1) b)) pzero = PINF"
    by (intro fdiv_by_zero) simp_all
  with a assms False show ?thesis
    by (simp add: ulpDiff_def isnan_iff isinfinite_iff feq_pzero_iff tiny_times_eps)
qed

subsection \<open>The rows of the edge-case table\<close>

lemma edge_fold:
  "foldl (\<lambda>(cells, isSpecial) fn.
              let result = fn input
              in (cells @ [result], if special result then True else isSpecial))
       (cells0, flag0) fns =
   (cells0 @ map (\<lambda>fn. fn input) fns, flag0 \<or> (\<exists>fn \<in> set fns. special (fn input)))"
  by (induction fns arbitrary: cells0 flag0) (auto simp add: Let_def)

lemma edge_row_eq:
  "edge_row fns input = (map (\<lambda>fn. fn input) fns, \<exists>fn \<in> set fns. special (fn input))"
  by (simp add: edge_row_def edge_fold)

lemma special_iff: "special r = (is_nan r \<or> is_inf r \<or> is_zero r)"
  by (simp add: special_def isnan_web_iff isinfinite_web_iff feq_pzero_iff)

subsection \<open>Some numbers and their classes\<close>

lemma NaN_class [simp]: "is_nan NaN" "\<not> is_inf NaN" "\<not> is_zero NaN"
  by (simp_all add: NaN_def is_nan_def is_inf_def is_zero_def)

lemma NINF_class [simp]: "is_inf NINF" "\<not> is_nan NINF" "sign NINF" "\<not> is_zero NINF"
  by (simp_all add: NINF_def is_inf_def is_nan_def is_zero_def)

lemma one_bits_Suc: "f64_of_nat (Suc 0) = F64 False 1023 0"
  using one_bits by simp

lemma one_class [simp]: "\<not> is_nan (f64_of_nat (Suc 0))" "\<not> is_inf (f64_of_nat (Suc 0))"
  "\<not> is_zero (f64_of_nat (Suc 0))" "\<not> sign (f64_of_nat (Suc 0))"
  by (simp_all add: one_bits_Suc is_nan_def is_inf_def is_zero_def)

lemma two_class [simp]: "\<not> is_nan (f64_of_nat 2)" "\<not> is_inf (f64_of_nat 2)"
  "\<not> is_zero (f64_of_nat 2)" "\<not> sign (f64_of_nat 2)"
  by (simp_all add: two_bits is_nan_def is_inf_def is_zero_def)

lemma one_two_not_feq: "\<not> feq (f64_of_nat 1) (f64_of_nat 2)"
  by (simp add: feq_def one_bits_Suc two_bits is_zero_def)

lemma n709_bits: "f64_of_nat 709 = F64 False 1032 1732830325374976"
  by (simp add: f64_eval)

lemma n710_bits: "f64_of_nat 710 = F64 False 1032 1741626418397184"
  by (simp add: f64_eval)

lemma n711_bits: "f64_of_nat 711 = F64 False 1032 1750422511419392"
  by (simp add: f64_eval)

lemma ulpDiff_zero_tiny: "ulpDiff pzero (F64 False 0 1) = F64 False 2 0"
  by (simp add: ulpDiff_def f64_eval)

lemma tiny_class [simp]: "\<not> is_nan (F64 False 0 1)" "\<not> is_inf (F64 False 0 1)"
  "\<not> is_zero (F64 False 0 1)"
  by (simp_all add: is_nan_def is_inf_def is_zero_def)

lemma length_filter_all: "length (filter P xs) = length xs \<longleftrightarrow> (\<forall>x \<in> set xs. P x)"
proof (induction xs)
  case Nil
  then show ?case by simp
next
  case (Cons x xs)
  have le: "length (filter P xs) \<le> length xs" by (rule length_filter_le)
  show ?case
  proof (cases "P x")
    case True
    with Cons show ?thesis by simp
  next
    case False
    from le have "length (filter P xs) \<noteq> Suc (length xs)" by linarith
    with False show ?thesis by simp
  qed
qed

subsection \<open>Evaluated test points\<close>

lemma four_bits: "f64_of_nat 4 = F64 False 1025 0"
  by (simp add: f64_eval)

lemma nzero_class [simp]: "\<not> is_nan nzero" "\<not> is_inf nzero" "is_zero nzero" "sign nzero"
  by (simp_all add: nzero_def is_nan_def is_inf_def is_zero_def)

lemma ulpDiff_nan_right: "is_nan b \<Longrightarrow> ulpDiff a b = NaN"
  by (simp add: ulpDiff_def isnan_iff feq_def)

lemma percent_of_nothing: "fdiv (fmul (f64_of_nat 100) (f64_of_nat 0)) (f64_of_nat 0) = NaN"
  by (simp add: hundred_bits zero_bits fmul_def fdiv_def round_q_def is_nan_def is_inf_def
      is_zero_def pzero_def mant_def)

lemma flt_709_710: "flt (f64_of_nat 709) (f64_of_nat 710)"
  by (simp add: n709_bits n710_bits flt_def skey_def key_def is_nan_def)

lemma not_flt_710_710: "\<not> flt (f64_of_nat 710) (f64_of_nat 710)"
  by (rule flt_irrefl)

lemma not_flt_711_710: "\<not> flt (f64_of_nat 711) (f64_of_nat 710)"
  by (simp add: n711_bits n710_bits flt_def skey_def key_def is_nan_def)

lemma n709_class: "\<not> is_nan (f64_of_nat 709)" "\<not> is_inf (f64_of_nat 709)"
  by (simp_all add: n709_bits is_nan_def is_inf_def)

lemma es_at_zero:
  "es_exp g pzero = f64_of_nat 1" "es_log g pzero = NINF" "es_sqrt g pzero = pzero"
  "es_sin g pzero = pzero"
  by (simp_all add: es_exp_def es_log_def es_sqrt_def es_sin_def flt_irrefl)

lemma es_sqrt_minus_one: "es_sqrt g (fneg (f64_of_nat (Suc 0))) = NaN"
  by (simp add: es_sqrt_def flt_pzero_iff)

lemma es_sqrt_nzero: "es_sqrt g nzero = nzero"
  by (simp add: es_sqrt_def flt_pzero_iff)

lemma nan_sweep_report:
  "pointsTested (runComparison (\<lambda>x. NaN) (\<lambda>x. NaN) xs) = length xs \<and>
   exactAgreements (runComparison (\<lambda>x. NaN) (\<lambda>x. NaN) xs) = 0 \<and>
   totalComparable (runComparison (\<lambda>x. NaN) (\<lambda>x. NaN) xs) = 0"
  using self_report[of "\<lambda>x. NaN" xs] by simp

subsection \<open>A sum of divergences that overflows\<close>

lemma ulpDiff_zero_big: "ulpDiff pzero (F64 False 1993 0) = F64 False 2046 0"
  by (simp add: ulpDiff_def f64_eval)

lemma round_two_huge: "round_q False 9007199254740992 (Suc 0) 2045 = PINF"
  by (simp add: f64_eval)

lemma huge_plus_huge: "fadd (F64 False 2046 0) (F64 False 2046 0) = PINF"
proof -
  have m: "mant (F64 False 2046 0) = 4503599627370496" by (simp add: mant_def)
  have q: "qexp (F64 False 2046 0) = 2045" by (simp add: qexp_def)
  have "fadd (F64 False 2046 0) (F64 False 2046 0) =
      round_q False 9007199254740992 (Suc 0) 2045"
    by (subst fadd_finite) (simp_all add: is_nan_def is_inf_def Let_def m q)
  then show ?thesis by (simp only: round_two_huge)
qed

lemma huge_class: "\<not> is_nan (F64 False 2046 0)" "\<not> is_inf (F64 False 2046 0)"
  "\<not> is_zero (F64 False 2046 0)" "\<not> sign (F64 False 2046 0)"
  by (simp_all add: is_nan_def is_inf_def is_zero_def)

lemma sweep_zero_big:
  "sweep_loop (\<lambda>x. pzero) (\<lambda>x. F64 False 1993 0) [f64_of_nat 2, f64_of_nat 3] =
     sweep_init\<lparr>nTotal := 2, totalDiff := PINF, maxUlpDiff := F64 False 2046 0,
       worstCase := f64_of_nat 2\<rparr>"
proof -
  have ne: "\<not> feq pzero (F64 False 1993 0)"
    by (simp add: feq_def is_zero_def pzero_def)
  have nn: "\<not> (is_nan pzero \<and> is_nan (F64 False 1993 0))" by simp
  have fin: "\<not> is_nan (ulpDiff pzero (F64 False 1993 0))"
    "\<not> is_inf (ulpDiff pzero (F64 False 1993 0))"
    by (simp_all add: ulpDiff_zero_big huge_class)
  have st: "\<And>s x. sweep_step (\<lambda>x. pzero) (\<lambda>x. F64 False 1993 0) s x =
     (if flt (maxUlpDiff s) (F64 False 2046 0)
      then s\<lparr>nTotal := nTotal s + 1, totalDiff := fadd (totalDiff s) (F64 False 2046 0),
             maxUlpDiff := F64 False 2046 0, worstCase := x\<rparr>
      else s\<lparr>nTotal := nTotal s + 1, totalDiff := fadd (totalDiff s) (F64 False 2046 0)\<rparr>)"
    using step_counted[of "\<lambda>x. pzero" _ "\<lambda>x. F64 False 1993 0", OF ne nn fin]
    by (simp add: ulpDiff_zero_big)
  have first: "fadd pzero (F64 False 2046 0) = F64 False 2046 0"
    by (rule fadd_zero_left) (simp_all add: huge_class)
  have up: "flt pzero (F64 False 2046 0)" by (simp add: flt_pzero_left huge_class)
  have s1: "sweep_step (\<lambda>x. pzero) (\<lambda>x. F64 False 1993 0) sweep_init (f64_of_nat 2) =
      sweep_init\<lparr>nTotal := 1, totalDiff := F64 False 2046 0, maxUlpDiff := F64 False 2046 0,
        worstCase := f64_of_nat 2\<rparr>"
    by (simp add: st up first)
  show ?thesis
    by (simp add: sweep_loop_def s1) (simp add: st flt_irrefl huge_plus_huge)
qed

lemma two_minus_zero: "fsub (f64_of_nat 2) (f64_of_nat 0) = f64_of_nat 2"
  unfolding zero_bits by (rule fsub_zero_right) simp_all

lemma inf_over_two: "fdiv PINF (f64_of_nat 2) = PINF"
  by (simp add: fdiv_def two_bits PINF_def is_nan_def is_inf_def is_zero_def)

section \<open>The claims\<close>

subsection \<open>C1: the five rules of the metric\<close>

text \<open>
  Claim C1. For every pair of doubles \<open>a\<close> and \<open>b\<close>, \<open>ulpDiff a b\<close> is the result of
  the five rules of the policy, tried in order: zero when \<open>a == b\<close> under IEEE equality,
  NaN when either is NaN, plus infinity when either is infinite, \<open>|b| / (eps / 2)\<close> when
  \<open>a\<close> is zero, and \<open>|a - b| / (|a| * eps)\<close> otherwise, where \<open>eps\<close> is the literal
  \<open>2.220446049250313e-16\<close>. The function of the source and the policy written from the
  specification are the same function.
\<close>

theorem ulpDiff_follows_policy: "ulpDiff a b = ulpDistance_spec a b"
  by (simp add: ulpDiff_def ulpDistance_spec_def isnan_iff isinfinite_iff feq_pzero_iff
      machineEpsilon_bits f64_of_nat_def)

subsection \<open>C2: a test point where both results are NaN\<close>

text \<open>
  Claim C2 as stated fails: with both functions returning NaN at the only test point,
  the point is counted in \<open>pointsTested\<close> but not in \<open>exactAgreements\<close>, which stays
  zero (and \<open>totalComparable\<close> stays zero too).
\<close>

theorem both_nan_counted_as_agreement_counterexample:
  "pointsTested (runComparison (\<lambda>x. NaN) (\<lambda>x. NaN) [f64_of_nat 1]) = 1 \<and>
   exactAgreements (runComparison (\<lambda>x. NaN) (\<lambda>x. NaN) [f64_of_nat 1]) = 0 \<and>
   totalComparable (runComparison (\<lambda>x. NaN) (\<lambda>x. NaN) [f64_of_nat 1]) = 0"
  using nan_sweep_report[of "[f64_of_nat 1]"] by simp

text \<open>
  Claim C2, amended. A test point where both functions return NaN adds one to
  \<open>pointsTested\<close> and changes nothing else: the loop state after it is the state before
  it, so the point is left out of \<open>totalComparable\<close>, of \<open>exactAgreements\<close> and of the
  sum and maximum of the divergences, wherever in the sequence it stands.
\<close>

theorem both_nan_skipped:
  "is_nan (c x) \<and> is_nan (r x) \<longrightarrow>
     sweep_step c r s x = s \<and>
     sweep_loop c r (xs @ x # ys) = sweep_loop c r (xs @ ys) \<and>
     pointsTested (runComparison c r (xs @ x # ys)) =
       pointsTested (runComparison c r (xs @ ys)) + 1 \<and>
     exactAgreements (runComparison c r (xs @ x # ys)) =
       exactAgreements (runComparison c r (xs @ ys)) \<and>
     totalComparable (runComparison c r (xs @ x # ys)) =
       totalComparable (runComparison c r (xs @ ys))"
proof
  assume nan: "is_nan (c x) \<and> is_nan (r x)"
  then have st: "\<And>s. sweep_step c r s x = s" by (simp add: step_both_nan)
  then have lp: "sweep_loop c r (xs @ x # ys) = sweep_loop c r (xs @ ys)"
    by (intro loop_skip)
  show "sweep_step c r s x = s \<and>
     sweep_loop c r (xs @ x # ys) = sweep_loop c r (xs @ ys) \<and>
     pointsTested (runComparison c r (xs @ x # ys)) =
       pointsTested (runComparison c r (xs @ ys)) + 1 \<and>
     exactAgreements (runComparison c r (xs @ x # ys)) =
       exactAgreements (runComparison c r (xs @ ys)) \<and>
     totalComparable (runComparison c r (xs @ x # ys)) =
       totalComparable (runComparison c r (xs @ ys))"
    using st lp by (simp add: runComparison_def Let_def)
qed

text \<open>
  The amended claim C2 at two test points with NaN results on both sides.
\<close>

theorem both_nan_skipped_witness:
  "is_nan ((\<lambda>x. NaN) (f64_of_nat 2)) \<and>
   sweep_loop (\<lambda>x. NaN) (\<lambda>x. NaN) ([f64_of_nat 1] @ f64_of_nat 2 # []) =
     sweep_loop (\<lambda>x. NaN) (\<lambda>x. NaN) ([f64_of_nat 1] @ []) \<and>
   pointsTested (runComparison (\<lambda>x. NaN) (\<lambda>x. NaN) ([f64_of_nat 1] @ f64_of_nat 2 # [])) = 2 \<and>
   exactAgreements (runComparison (\<lambda>x. NaN) (\<lambda>x. NaN) ([f64_of_nat 1] @ f64_of_nat 2 # [])) = 0"
  using both_nan_skipped[of "\<lambda>x. NaN" "f64_of_nat 2" "\<lambda>x. NaN" sweep_init "[f64_of_nat 1]" "[]"]
    nan_sweep_report[of "[f64_of_nat 1]"]
  by (simp add: runComparison_def Let_def)

subsection \<open>C3: a function compared with itself\<close>

text \<open>
  Claim C3 as stated fails: for the identity function and the single test point NaN,
  \<open>pointsTested\<close> is one while \<open>totalComparable\<close> and \<open>exactAgreements\<close> are zero.
\<close>

theorem self_comparison_counterexample:
  "pointsTested (runComparison (\<lambda>x. x) (\<lambda>x. x) [NaN]) = 1 \<and>
   totalComparable (runComparison (\<lambda>x. x) (\<lambda>x. x) [NaN]) = 0 \<and>
   exactAgreements (runComparison (\<lambda>x. x) (\<lambda>x. x) [NaN]) = 0"
  by (simp add: self_report)

text \<open>
  Claim C3, amended. For every function \<open>f\<close> and every sequence of test points, the
  sweep of \<open>f\<close> against itself gives \<open>exactAgreements\<close> and \<open>totalComparable\<close> both
  equal to the number of test points where \<open>f\<close> returns neither NaN nor an infinity,
  a maximal ULP difference of zero and the report of perfect agreement; the two counters
  equal \<open>pointsTested\<close> exactly when \<open>f\<close> returns a finite number at every test point.
\<close>

theorem self_comparison:
  "exactAgreements (runComparison f f xs) =
     length (filter (\<lambda>x. \<not> is_nan (f x) \<and> \<not> is_inf (f x)) xs) \<and>
   totalComparable (runComparison f f xs) =
     length (filter (\<lambda>x. \<not> is_nan (f x) \<and> \<not> is_inf (f x)) xs) \<and>
   pointsTested (runComparison f f xs) = length xs \<and>
   maxUlpDiff (sweep_loop f f xs) = pzero \<and>
   outcome (runComparison f f xs) = PerfectAgreement \<and>
   (totalComparable (runComparison f f xs) = pointsTested (runComparison f f xs) \<longleftrightarrow>
      (\<forall>x \<in> set xs. \<not> is_nan (f x) \<and> \<not> is_inf (f x)))"
  using self_report[of f xs] by (simp add: length_filter_all)

text \<open>
  The amended claim C3 for the identity function at the test points one and two.
\<close>

theorem self_comparison_witness:
  "\<not> is_nan (f64_of_nat 1) \<and> \<not> is_inf (f64_of_nat 1) \<and>
   \<not> is_nan (f64_of_nat 2) \<and> \<not> is_inf (f64_of_nat 2) \<and>
   exactAgreements (runComparison (\<lambda>x. x) (\<lambda>x. x) [f64_of_nat 1, f64_of_nat 2]) = 2 \<and>
   totalComparable (runComparison (\<lambda>x. x) (\<lambda>x. x) [f64_of_nat 1, f64_of_nat 2]) = 2 \<and>
   pointsTested (runComparison (\<lambda>x. x) (\<lambda>x. x) [f64_of_nat 1, f64_of_nat 2]) = 2"
  using self_comparison[of "\<lambda>x. x" "[f64_of_nat 1, f64_of_nat 2]"] by simp

subsection \<open>C4: the guard of the average\<close>

text \<open>
  Claim C4 says that the average is computed exactly when the denominator
  \<open>totalComparable - exactAgreements\<close> is positive, that perfect agreement is reported
  otherwise, and that no statistic shown is NaN or an infinity. The code does not keep
  this; it is evaluated here at three inputs. With the candidate returning its argument
  and the reference NaN at the one test point, one point is comparable and none agrees,
  so the denominator is one, and yet perfect agreement is reported. With both functions
  returning NaN at the one test point, no point is comparable and the percentage of
  exact agreement, \<open>100 * 0 / 0\<close>, is NaN. With the candidate returning zero and the
  reference \<open>2 ^ 970\<close> at two test points, each divergence is \<open>2 ^ 1023\<close>, their sum
  overflows, and the average shown is plus infinity.
\<close>

theorem report_statistics_at_failing_inputs:
  "totalComparable (runComparison (\<lambda>x. x) (\<lambda>x. NaN) [f64_of_nat 2]) = 1 \<and>
   exactAgreements (runComparison (\<lambda>x. x) (\<lambda>x. NaN) [f64_of_nat 2]) = 0 \<and>
   outcome (runComparison (\<lambda>x. x) (\<lambda>x. NaN) [f64_of_nat 2]) = PerfectAgreement \<and>
   totalComparable (runComparison (\<lambda>x. NaN) (\<lambda>x. NaN) [f64_of_nat 2]) = 0 \<and>
   is_nan (agreementPercent (runComparison (\<lambda>x. NaN) (\<lambda>x. NaN) [f64_of_nat 2])) \<and>
   totalComparable
     (runComparison (\<lambda>x. pzero) (\<lambda>x. F64 False 1993 0) [f64_of_nat 2, f64_of_nat 3]) = 2 \<and>
   exactAgreements
     (runComparison (\<lambda>x. pzero) (\<lambda>x. F64 False 1993 0) [f64_of_nat 2, f64_of_nat 3]) = 0 \<and>
   outcome (runComparison (\<lambda>x. pzero) (\<lambda>x. F64 False 1993 0) [f64_of_nat 2, f64_of_nat 3]) =
     Divergence (F64 False 2046 0) PINF (f64_of_nat 2) pzero (F64 False 1993 0) \<and>
   is_inf (avgShown
     (outcome (runComparison (\<lambda>x. pzero) (\<lambda>x. F64 False 1993 0) [f64_of_nat 2, f64_of_nat 3])))"
proof -
  have "sweep_step (\<lambda>x. x) (\<lambda>x. NaN) sweep_init (f64_of_nat 2) =
      sweep_init\<lparr>nTotal := nTotal sweep_init + 1\<rparr>"
    by (rule step_uncounted) (simp_all add: feq_def ulpDiff_nan_right)
  then have a: "sweep_loop (\<lambda>x. x) (\<lambda>x. NaN) [f64_of_nat 2] = sweep_init\<lparr>nTotal := 1\<rparr>"
    by (simp add: sweep_loop_def)
  have b: "sweep_loop (\<lambda>x. NaN) (\<lambda>x. NaN) [f64_of_nat 2] =
      sweep_init\<lparr>nTotal := 0, nAgree := 0\<rparr>"
    by (simp add: self_sweep)
  have up: "flt pzero (F64 False 2046 0)" by (simp add: flt_pzero_left huge_class)
  from a have 1: "totalComparable (runComparison (\<lambda>x. x) (\<lambda>x. NaN) [f64_of_nat 2]) = 1"
    "exactAgreements (runComparison (\<lambda>x. x) (\<lambda>x. NaN) [f64_of_nat 2]) = 0"
    "outcome (runComparison (\<lambda>x. x) (\<lambda>x. NaN) [f64_of_nat 2]) = PerfectAgreement"
    by (simp_all add: runComparison_def Let_def flt_irrefl)
  from b have 2: "totalComparable (runComparison (\<lambda>x. NaN) (\<lambda>x. NaN) [f64_of_nat 2]) = 0"
    "is_nan (agreementPercent (runComparison (\<lambda>x. NaN) (\<lambda>x. NaN) [f64_of_nat 2]))"
    by (simp_all add: runComparison_def Let_def percent_of_nothing)
  have 3: "totalComparable
     (runComparison (\<lambda>x. pzero) (\<lambda>x. F64 False 1993 0) [f64_of_nat 2, f64_of_nat 3]) = 2"
    "exactAgreements
     (runComparison (\<lambda>x. pzero) (\<lambda>x. F64 False 1993 0) [f64_of_nat 2, f64_of_nat 3]) = 0"
    "outcome (runComparison (\<lambda>x. pzero) (\<lambda>x. F64 False 1993 0) [f64_of_nat 2, f64_of_nat 3]) =
     Divergence (F64 False 2046 0) PINF (f64_of_nat 2) pzero (F64 False 1993 0)"
    using up by (simp_all add: runComparison_def Let_def sweep_zero_big two_minus_zero inf_over_two)
  from 1 2 3 show ?thesis by simp
qed

subsection \<open>C5: infinite results\<close>

text \<open>
  Claim C5. A test point where both functions return infinities of the same sign leaves
  the loop state as it was, so it is not counted in \<open>totalComparable\<close>. A test point
  where the results are infinities of different signs, or one infinity and one finite
  number, has the divergence plus infinity, adds one to \<open>totalComparable\<close> and nothing
  to the sum or the maximum. For any function \<open>e\<close> that is finite at 709 and plus
  infinity at 710 and 711, as \<open>exp\<close> is, the sweep of \<open>e\<close> against itself over
  \<open>[709, 710, 711]\<close> tests three points and counts one as comparable.
\<close>

theorem infinite_results:
  "(is_inf (c x) \<and> is_inf (r x) \<and> sign (c x) = sign (r x) \<longrightarrow> sweep_step c r s x = s) \<and>
   ((is_inf (c x) \<and> is_inf (r x) \<and> sign (c x) \<noteq> sign (r x)) \<or>
    (is_inf (c x) \<and> \<not> is_nan (r x) \<and> \<not> is_inf (r x)) \<or>
    (\<not> is_nan (c x) \<and> \<not> is_inf (c x) \<and> is_inf (r x)) \<longrightarrow>
      ulpDiff (c x) (r x) = PINF \<and> isinfinite (ulpDiff (c x) (r x)) \<and>
      sweep_step c r s x = s\<lparr>nTotal := nTotal s + 1\<rparr>) \<and>
   (\<not> is_nan (e (f64_of_nat 709)) \<and> \<not> is_inf (e (f64_of_nat 709)) \<and>
    e (f64_of_nat 710) = PINF \<and> e (f64_of_nat 711) = PINF \<longrightarrow>
      pointsTested (runComparison e e [f64_of_nat 709, f64_of_nat 710, f64_of_nat 711]) = 3 \<and>
      totalComparable (runComparison e e [f64_of_nat 709, f64_of_nat 710, f64_of_nat 711]) = 1 \<and>
      exactAgreements (runComparison e e [f64_of_nat 709, f64_of_nat 710, f64_of_nat 711]) = 1)"
proof (intro conjI impI)
  assume "is_inf (c x) \<and> is_inf (r x) \<and> sign (c x) = sign (r x)"
  then show "sweep_step c r s x = s"
    by (intro step_same_inf inf_same_sign_feq) simp_all
next
  assume h: "(is_inf (c x) \<and> is_inf (r x) \<and> sign (c x) \<noteq> sign (r x)) \<or>
    (is_inf (c x) \<and> \<not> is_nan (r x) \<and> \<not> is_inf (r x)) \<or>
    (\<not> is_nan (c x) \<and> \<not> is_inf (c x) \<and> is_inf (r x))"
  then have ne: "\<not> feq (c x) (r x)"
    using inf_other_sign_not_feq[of "c x" "r x"] inf_finite_not_feq[of "c x" "r x"]
      inf_finite_not_feq[of "r x" "c x"] by blast
  from h have nn: "\<not> is_nan (c x)" "\<not> is_nan (r x)" and oi: "is_inf (c x) \<or> is_inf (r x)"
    using is_inf_not_nan[of "c x"] is_inf_not_nan[of "r x"] by blast+
  from ne nn oi show "ulpDiff (c x) (r x) = PINF" by (rule ulpDiff_inf)
  from ne nn oi show "sweep_step c r s x = s\<lparr>nTotal := nTotal s + 1\<rparr>"
    by (rule step_inf_mismatch)
  from ne nn oi have "ulpDiff (c x) (r x) = PINF" by (rule ulpDiff_inf)
  then show "isinfinite (ulpDiff (c x) (r x))" by (simp add: isinfinite_iff)
next
  assume h: "\<not> is_nan (e (f64_of_nat 709)) \<and> \<not> is_inf (e (f64_of_nat 709)) \<and>
    e (f64_of_nat 710) = PINF \<and> e (f64_of_nat 711) = PINF"
  then show "pointsTested (runComparison e e [f64_of_nat 709, f64_of_nat 710, f64_of_nat 711]) = 3"
    "totalComparable (runComparison e e [f64_of_nat 709, f64_of_nat 710, f64_of_nat 711]) = 1"
    "exactAgreements (runComparison e e [f64_of_nat 709, f64_of_nat 710, f64_of_nat 711]) = 1"
    by (simp_all add: self_report)
qed

text \<open>
  Claim C5 at concrete results: plus infinity on both sides, plus against minus
  infinity, an infinity against zero on either side, and a function that saturates from
  710 on.
\<close>

theorem infinite_results_witness:
  "sweep_step (\<lambda>x. PINF) (\<lambda>x. PINF) sweep_init pzero = sweep_init \<and>
   ulpDiff PINF NINF = PINF \<and>
   sweep_step (\<lambda>x. PINF) (\<lambda>x. NINF) sweep_init pzero = sweep_init\<lparr>nTotal := 1\<rparr> \<and>
   sweep_step (\<lambda>x. PINF) (\<lambda>x. x) sweep_init pzero = sweep_init\<lparr>nTotal := 1\<rparr> \<and>
   sweep_step (\<lambda>x. x) (\<lambda>x. NINF) sweep_init pzero = sweep_init\<lparr>nTotal := 1\<rparr> \<and>
   totalComparable (runComparison (\<lambda>x. if flt x (f64_of_nat 710) then x else PINF)
      (\<lambda>x. if flt x (f64_of_nat 710) then x else PINF)
      [f64_of_nat 709, f64_of_nat 710, f64_of_nat 711]) = 1 \<and>
   exactAgreements (runComparison (\<lambda>x. if flt x (f64_of_nat 710) then x else PINF)
      (\<lambda>x. if flt x (f64_of_nat 710) then x else PINF)
      [f64_of_nat 709, f64_of_nat 710, f64_of_nat 711]) = 1"
proof -
  note a = infinite_results[of "\<lambda>x. PINF" pzero "\<lambda>x. PINF" sweep_init "\<lambda>x. x"]
  note b = infinite_results[of "\<lambda>x. PINF" pzero "\<lambda>x. NINF" sweep_init "\<lambda>x. x"]
  note c = infinite_results[of "\<lambda>x. PINF" pzero "\<lambda>x. x" sweep_init "\<lambda>x. x"]
  note d = infinite_results[of "\<lambda>x. x" pzero "\<lambda>x. NINF" sweep_init "\<lambda>x. x"]
  note e = infinite_results[of "\<lambda>x. x" pzero "\<lambda>x. x" sweep_init
      "\<lambda>x. if flt x (f64_of_nat 710) then x else PINF"]
  from a have 1: "sweep_step (\<lambda>x. PINF) (\<lambda>x. PINF) sweep_init pzero = sweep_init" by simp
  from b have 2: "ulpDiff PINF NINF = PINF"
    "sweep_step (\<lambda>x. PINF) (\<lambda>x. NINF) sweep_init pzero = sweep_init\<lparr>nTotal := 1\<rparr>" by simp_all
  from c have 3: "sweep_step (\<lambda>x. PINF) (\<lambda>x. x) sweep_init pzero = sweep_init\<lparr>nTotal := 1\<rparr>"
    by simp
  from d have 4: "sweep_step (\<lambda>x. x) (\<lambda>x. NINF) sweep_init pzero = sweep_init\<lparr>nTotal := 1\<rparr>"
    by simp
  from e have 5: "totalComparable (runComparison (\<lambda>x. if flt x (f64_of_nat 710) then x else PINF)
      (\<lambda>x. if flt x (f64_of_nat 710) then x else PINF)
      [f64_of_nat 709, f64_of_nat 710, f64_of_nat 711]) = 1"
    "exactAgreements (runComparison (\<lambda>x. if flt x (f64_of_nat 710) then x else PINF)
      (\<lambda>x. if flt x (f64_of_nat 710) then x else PINF)
      [f64_of_nat 709, f64_of_nat 710, f64_of_nat 711]) = 1"
    by (simp_all add: flt_709_710 not_flt_710_710 not_flt_711_710 n709_class)
  from 1 2 3 4 5 show ?thesis by simp
qed

subsection \<open>C6: the flag of the edge-case table\<close>

text \<open>
  Claim C6 as stated fails: in the first row of the table, for the input zero, the
  result of \<open>exp\<close> is one, which is neither NaN, infinite nor zero, and the row is
  flagged all the same, because the logarithm, the square root and the sine of zero are
  special. These four results are fixed by ECMAScript, whatever the platform computes
  elsewhere.
\<close>

theorem row_flag_counterexample:
  "populateEdgeCases (es_exp (\<lambda>x. x)) (es_log (\<lambda>x. x)) (es_sqrt (\<lambda>x. x)) (es_sin (\<lambda>x. x)) ! 0 =
     ([f64_of_nat 1, NINF, pzero, pzero], True) \<and>
   es_exp (\<lambda>x. x) pzero = f64_of_nat 1 \<and>
   \<not> special (es_exp (\<lambda>x. x) pzero)"
  by (simp add: populateEdgeCases_def edge_inputs_def edge_row_eq es_at_zero special_iff)

text \<open>
  Claim C6, amended. The table has one flag per row, that is per input, for all the
  functions of the row together: the row of \<open>x\<close> holds the results of the functions at
  \<open>x\<close> in order, and it is flagged exactly when at least one of these results is NaN,
  an infinity or a zero of either sign. With the square root alone in the row,
  negative zero gives negative zero and a flagged row, minus one gives NaN and a flagged
  row, and four gives two and an unflagged row whenever the square root of four is two.
\<close>

theorem row_flag:
  "edge_row fns x = (map (\<lambda>fn. fn x) fns, \<exists>fn \<in> set fns. special (fn x)) \<and>
   special res = (is_nan res \<or> is_inf res \<or> is_zero res) \<and>
   populateEdgeCases m_exp m_log m_sqrt m_sin =
     map (edge_row [m_exp, m_log, m_sqrt, m_sin]) edge_inputs \<and>
   edge_row [es_sqrt g] nzero = ([nzero], True) \<and>
   edge_row [es_sqrt g] (fneg (f64_of_nat 1)) = ([NaN], True) \<and>
   (m_sqrt (f64_of_nat 4) = f64_of_nat 2 \<longrightarrow>
      edge_row [m_sqrt] (f64_of_nat 4) = ([f64_of_nat 2], False))"
  by (simp add: edge_row_eq special_iff populateEdgeCases_def es_sqrt_minus_one es_sqrt_nzero)

text \<open>
  The amended claim C6 for a square root that returns two at four.
\<close>

theorem row_flag_witness:
  "es_sqrt (\<lambda>x. f64_of_nat 2) (f64_of_nat 4) = f64_of_nat 2 \<and>
   edge_row [es_sqrt (\<lambda>x. f64_of_nat 2)] (f64_of_nat 4) = ([f64_of_nat 2], False)"
proof -
  have "es_sqrt (\<lambda>x. f64_of_nat 2) (f64_of_nat 4) = f64_of_nat 2"
    by (simp add: es_sqrt_def four_bits flt_pzero_iff is_nan_def is_zero_def PINF_def)
  with row_flag[of "[]" pzero pzero "\<lambda>x. x" "\<lambda>x. x" "es_sqrt (\<lambda>x. f64_of_nat 2)" "\<lambda>x. x" "\<lambda>x. x"]
  show ?thesis by simp
qed

subsection \<open>C7: what is never negative\<close>

text \<open>
  Claim C7. For all functions and test points, the finished sweep has
  \<open>exactAgreements \<le> totalComparable\<close> and a maximal ULP difference that is a number
  not below zero; and \<open>ulpDiff a b\<close> is never below zero for any doubles \<open>a\<close> and \<open>b\<close>:
  it is NaN or has a clear sign bit.
\<close>

theorem counters_and_metric_ordered:
  "exactAgreements (runComparison c r xs) \<le> totalComparable (runComparison c r xs) \<and>
   \<not> flt (maxUlpDiff (sweep_loop c r xs)) pzero \<and>
   \<not> is_nan (maxUlpDiff (sweep_loop c r xs)) \<and>
   \<not> flt (ulpDiff a b) pzero \<and>
   (is_nan (ulpDiff a b) \<or> \<not> sign (ulpDiff a b))"
  using sweep_loop_keeps[of c r xs] ulpDiff_sign[of a b]
  by (auto simp add: runComparison_def Let_def flt_pzero_iff)

subsection \<open>C8: the metric is not symmetric\<close>

text \<open>
  Claim C8. The metric is not symmetric: from one to two it is \<open>2 ^ 52\<close> and from two
  to one it is \<open>2 ^ 51\<close>, since the last rule divides by the magnitude of the first
  argument; and from zero to \<open>5e-324\<close> the zero rule gives \<open>2 ^ -1021\<close> while from
  \<open>5e-324\<close> to zero the last rule gives plus infinity. So there are doubles \<open>a\<close> and
  \<open>b\<close>, neither NaN and not equal, with different results in the two orders.
\<close>

theorem ulpDiff_not_symmetric:
  "ulpDiff (f64_of_nat 1) (f64_of_nat 2) = F64 False 1075 0 \<and>
   ulpDiff (f64_of_nat 2) (f64_of_nat 1) = F64 False 1074 0 \<and>
   \<not> is_nan (f64_of_nat 1) \<and> \<not> is_nan (f64_of_nat 2) \<and>
   \<not> feq (f64_of_nat 1) (f64_of_nat 2) \<and>
   \<not> feq (ulpDiff (f64_of_nat 1) (f64_of_nat 2)) (ulpDiff (f64_of_nat 2) (f64_of_nat 1)) \<and>
   ulpDiff pzero (smallest) = F64 False 2 0 \<and>
   ulpDiff (smallest) pzero = PINF \<and>
   (\<exists>a b. \<not> is_nan a \<and> \<not> is_nan b \<and> \<not> feq a b \<and> ulpDiff a b \<noteq> ulpDiff b a)"
proof -
  have 1: "ulpDiff (f64_of_nat 1) (f64_of_nat 2) = F64 False 1075 0"
    using ulpDiff_one_two by (simp add: one_bits_Suc two_bits)
  have 2: "ulpDiff (f64_of_nat 2) (f64_of_nat 1) = F64 False 1074 0"
    using ulpDiff_two_one by (simp add: one_bits_Suc two_bits)
  have 3: "\<not> feq (f64_of_nat 1) (f64_of_nat 2)" using one_two_not_feq by simp
  have 4: "\<not> feq (F64 False 1075 0) (F64 False 1074 0)"
    by (simp add: feq_def is_zero_def)
  have 5: "ulpDiff pzero (smallest) = F64 False 2 0"
    by (simp add: smallest_bits ulpDiff_zero_tiny)
  have 6: "ulpDiff (smallest) pzero = PINF"
    unfolding smallest_bits
    by (rule ulpDiff_tiny) (simp_all add: feq_def is_zero_def is_nan_def pzero_def)
  have "\<not> is_nan (f64_of_nat 1) \<and> \<not> is_nan (f64_of_nat 2) \<and>
    \<not> feq (f64_of_nat 1) (f64_of_nat 2) \<and>
    ulpDiff (f64_of_nat 1) (f64_of_nat 2) \<noteq> ulpDiff (f64_of_nat 2) (f64_of_nat 1)"
    using 1 2 3 by simp
  then have 7: "\<exists>a b. \<not> is_nan a \<and> \<not> is_nan b \<and> \<not> feq a b \<and> ulpDiff a b \<noteq> ulpDiff b a"
    by blast
  from 1 2 3 4 5 6 7 show ?thesis by simp
qed

subsection \<open>C9: the two implementations of the metric\<close>

text \<open>
  Claim C9. For every pair of doubles the metric of \<open>web/app.js\<close>, with its own
  helpers and its own literal for machine epsilon, returns the same double as the
  metric of \<open>lib/compare.js\<close>.
\<close>

theorem ulpDiff_web_eq_ulpDiff: "ulpDiff_web a b = ulpDiff a b"
proof (cases "feq a b \<or> is_nan a \<or> is_nan b \<or> is_inf a \<or> is_inf b")
  case True
  then show ?thesis
    by (auto simp add: ulpDiff_web_def ulpDiff_def isnan_iff isinfinite_iff isnan_web_iff
        isinfinite_web_iff)
next
  case False
  then have ne: "\<not> feq a b" and fin: "\<not> is_nan a" "\<not> is_nan b" "\<not> is_inf a" "\<not> is_inf b"
    by simp_all
  show ?thesis
  proof (cases "is_zero a")
    case True
    with ne fin have "\<not> is_zero b" using feq_zero_zero[of a b] by blast
    with fin have "abs_web b = abs_f b" by (intro abs_web_eq)
    with True ne fin show ?thesis
      by (simp add: ulpDiff_web_def ulpDiff_def isnan_iff isinfinite_iff isnan_web_iff
          isinfinite_web_iff feq_pzero_iff FLOAT64_EPS_web_bits)
  next
    case False
    with fin have a: "abs_web a = abs_f a" by (intro abs_web_eq)
    from fin have "\<not> is_nan (fsub a b)" by (rule fsub_not_nan)
    moreover from fin ne have "\<not> is_zero (fsub a b)" by (rule fsub_not_zero)
    ultimately have d: "abs_web (fsub a b) = abs_f (fsub a b)" by (rule abs_web_eq)
    from False ne fin a d show ?thesis
      by (simp add: ulpDiff_web_def ulpDiff_def isnan_iff isinfinite_iff isnan_web_iff
          isinfinite_web_iff feq_pzero_iff FLOAT64_EPS_web_bits)
  qed
qed

subsection \<open>C10: a denominator that underflows\<close>



end
